theory Spec2Isabelle
  imports Main "HOL-Library.Sublist" "HOL-Library.Word"
begin

unbundle bit_operations_syntax

section \<open>PrepareMF4.py: the Nexiq log decoder, embedded\<close>

text \<open>
  Strings are \<open>char list\<close>; Python integers are \<open>int\<close>. Every place where the
  script can raise is a branch returning \<open>Inl\<close> of the exception's name. The script
  has no \<open>try\<close>: an exception anywhere ends \<open>main\<close> before anything is exported.
\<close>

datatype error = AttributeError | ValueError | StructError | IndexError

subsection \<open>Python built-ins used by the script\<close>

text \<open>
  \<open>int(s, base)\<close> for the digit strings the script builds: a non-empty run of digits
  of the base (letters in either case). Python's \<open>int\<close> also reads a sign, a
  \<open>0x\<close> prefix, underscores between digits and blanks around the number; these forms
  cannot occur in a slice of a string filtered to \<open>[0-9A-F]\<close> or in a string produced
  by \<open>bin\<close>, and they are answered here with \<open>ValueError\<close>, which is not
  Python's answer. Every statement below takes a string that this function reads.
\<close>

definition digit_val :: "char \<Rightarrow> int option" where
  "digit_val c =
     (let k = of_char c :: int in
      if 48 \<le> k \<and> k \<le> 57 then Some (k - 48)
      else if 65 \<le> k \<and> k \<le> 90 then Some (k - 55)
      else if 97 \<le> k \<and> k \<le> 122 then Some (k - 87)
      else None)"

definition is_digit_of :: "int \<Rightarrow> char \<Rightarrow> bool" where
  "is_digit_of base c = (case digit_val c of None \<Rightarrow> False | Some d \<Rightarrow> d < base)"

definition digits_val :: "int \<Rightarrow> string \<Rightarrow> int" where
  "digits_val base s = foldl (\<lambda>acc c. base * acc + the (digit_val c)) 0 s"

definition py_int :: "string \<Rightarrow> int \<Rightarrow> error + int" where
  "py_int s base =
     (if s \<noteq> [] \<and> list_all (is_digit_of base) s then Inr (digits_val base s)
      else Inl ValueError)"

text \<open>
  The digits of a non-negative integer in a base, most significant first, in upper case:
  what \<open>bin\<close> and the \<open>X\<close> format write after the sign and prefix.
\<close>

definition digit_char :: "int \<Rightarrow> char" where
  "digit_char d = (if d < 10 then char_of (48 + d) else char_of (55 + d))"

function digits_of :: "int \<Rightarrow> int \<Rightarrow> string" where
  "digits_of base n =
     (if base < 2 \<or> n < base then [digit_char n]
      else digits_of base (n div base) @ [digit_char (n mod base)])"
  by pat_completeness auto
termination
proof (relation "measure (\<lambda>(base, n). nat n)")
  show "wf (measure (\<lambda>(base, n). nat n))" by simp
next
  fix base n :: int
  assume a: "\<not> (base < 2 \<or> n < base)"
  then have "0 < n" "n div base < n" by (simp_all add: int_div_less_self)
  then show "((base, n div base), (base, n)) \<in> measure (\<lambda>(base, n). nat n)" by simp
qed

declare digits_of.simps [simp del]

text \<open>\<open>bin(n)\<close>: the binary digits of \<open>|n|\<close> after \<open>0b\<close>, a minus sign first if negative.\<close>

definition bin :: "int \<Rightarrow> string" where
  "bin n = (if n < 0 then ''-0b'' @ digits_of 2 (- n) else ''0b'' @ digits_of 2 n)"

text \<open>\<open>s.zfill(width)\<close>: zeros on the left, after a leading sign if there is one.\<close>

definition zfill :: "string \<Rightarrow> nat \<Rightarrow> string" where
  "zfill s width =
     (if width \<le> length s then s
      else case s of
             c # r \<Rightarrow> if c = CHR ''+'' \<or> c = CHR ''-''
                      then c # replicate (width - length s) CHR ''0'' @ r
                      else replicate (width - length s) CHR ''0'' @ s
           | [] \<Rightarrow> replicate width CHR ''0'')"

text \<open>\<open>"{0:0>4X}".format(n)\<close>: upper-case hexadecimal, right-aligned in 4 with zeros.\<close>

definition format_X :: "int \<Rightarrow> string" where
  "format_X n = (if n < 0 then CHR ''-'' # digits_of 16 (- n) else digits_of 16 n)"

definition format_04X :: "int \<Rightarrow> string" where
  "format_04X n = (let s = format_X n in replicate (4 - length s) CHR ''0'' @ s)"

text \<open>\<open>s[a:b]\<close> for \<open>0 \<le> a \<le> b\<close>: never raises, shorter when the string is.\<close>

definition slice :: "string \<Rightarrow> nat \<Rightarrow> nat \<Rightarrow> string" where
  "slice s a b = take (b - a) (drop a s)"

subsection \<open>Auxiliary functions of the script\<close>

definition hexStr2binStr :: "string \<Rightarrow> nat \<Rightarrow> error + string" where
  "hexStr2binStr hexStr numBits =
     (case py_int hexStr 16 of
        Inl e \<Rightarrow> Inl e
      | Inr n \<Rightarrow> Inr (zfill (drop 2 (bin n)) numBits))"

definition binStr2HexStr :: "string \<Rightarrow> error + string" where
  "binStr2HexStr binStr =
     (case py_int binStr 2 of
        Inl e \<Rightarrow> Inl e
      | Inr n \<Rightarrow> Inr (format_04X n))"

text \<open>Lines 116 to 121 of \<open>main\<close>: the identifier column from the three hex fields.\<close>

definition build_id :: "string \<Rightarrow> string \<Rightarrow> string \<Rightarrow> error + string" where
  "build_id priority_hex pgn_hex source_hex =
     (case hexStr2binStr priority_hex 3 of
        Inl e \<Rightarrow> Inl e
      | Inr b1 \<Rightarrow>
     (case hexStr2binStr pgn_hex 18 of
        Inl e \<Rightarrow> Inl e
      | Inr b2 \<Rightarrow>
     (case hexStr2binStr source_hex 8 of
        Inl e \<Rightarrow> Inl e
      | Inr b3 \<Rightarrow> binStr2HexStr (b1 @ b2 @ b3))))"

text \<open>
  \<open>HexStrToListOfInts\<close>: the string cut in pairs of characters (the last piece has one
  character when the length is odd), each piece read in base 16.
\<close>

fun int_each :: "string list \<Rightarrow> error + int list" where
  "int_each [] = Inr []"
| "int_each (x # xs) =
     (case py_int x 16 of
        Inl e \<Rightarrow> Inl e
      | Inr n \<Rightarrow> (case int_each xs of Inl e \<Rightarrow> Inl e | Inr ns \<Rightarrow> Inr (n # ns)))"

definition HexStrToListOfInts :: "string \<Rightarrow> error + int list" where
  "HexStrToListOfInts hexStr =
     (let hexs = map (\<lambda>k. slice hexStr (2 * k) (2 * k + 2)) [0 ..< (length hexStr + 1) div 2]
      in int_each hexs)"

subsection \<open>The searches of the log line\<close>

text \<open>
  Every pattern of \<open>main\<close> is a literal followed by one greedy character class, so
  \<open>re.search\<close> matches at the leftmost place where the literal stands, and group 1 is
  the longest run of the class after it. \<open>None\<close> is Python's \<open>None\<close>: no match.
\<close>

definition is_09 :: "char \<Rightarrow> bool" where
  "is_09 c = (c \<in> set ''0123456789'')"

definition is_09AF :: "char \<Rightarrow> bool" where
  "is_09AF c = (c \<in> set ''0123456789ABCDEF'')"

fun search_after :: "string \<Rightarrow> string \<Rightarrow> string option" where
  "search_after lit [] = (if lit = [] then Some [] else None)"
| "search_after lit (c # cs) =
     (if prefix lit (c # cs) then Some (drop (length lit) (c # cs)) else search_after lit cs)"

text \<open>\<open>re.search(lit + "([0-9]*)", line)\<close>, as group 1 of the match.\<close>

definition re_search_digits :: "string \<Rightarrow> string \<Rightarrow> string option" where
  "re_search_digits lit line = map_option (takeWhile is_09) (search_after lit line)"

text \<open>\<open>re.search("Data: ([0-9A-F ]*)", line)\<close>, as group 1 of the match.\<close>

definition re_search_data :: "string \<Rightarrow> string option" where
  "re_search_data line =
     map_option (takeWhile (\<lambda>c. is_09AF c \<or> c = CHR '' '')) (search_after ''Data: '' line)"

text \<open>
  \<open>re.search(r"^(.*) \(", line)\<close>: anchored at the start, the dot matches anything but
  a newline and is greedy, so group 1 ends at the last \<open>" ("\<close> that stands before the
  first newline.
\<close>

fun search_last :: "string \<Rightarrow> string \<Rightarrow> string option" where
  "search_last lit [] = (if lit = [] then Some [] else None)"
| "search_last lit (c # cs) =
     (case search_last lit cs of
        Some g \<Rightarrow> Some (c # g)
      | None \<Rightarrow> if prefix lit (c # cs) then Some [] else None)"

definition re_search_timestamp :: "string \<Rightarrow> string option" where
  "re_search_timestamp line = search_last '' ('' (takeWhile (\<lambda>c. c \<noteq> CHR 0x0A) line)"

text \<open>
  \<open>re.findall("( [0-9A-F]{2})", s)\<close>: the matches from left to right, the scan going
  on after each match.
\<close>

fun findall_groups :: "string \<Rightarrow> string list" where
  "findall_groups (a # b # c # rest) =
     (if a = CHR '' '' \<and> is_09AF b \<and> is_09AF c then [a, b, c] # findall_groups rest
      else findall_groups (b # c # rest))"
| "findall_groups s = []"

text \<open>\<open>s.strip()\<close>, for characters below 256.\<close>

definition is_space :: "char \<Rightarrow> bool" where
  "is_space c = (c \<in> set [CHR 0x09, CHR 0x0A, CHR 0x0B, CHR 0x0C, CHR 0x0D, CHR 0x1C, CHR 0x1D,
                            CHR 0x1E, CHR 0x1F, CHR 0x20, CHR 0x85, CHR 0xA0])"

definition strip :: "string \<Rightarrow> string" where
  "strip s = rev (dropWhile is_space (rev (dropWhile is_space s)))"

subsection \<open>The data frame\<close>

text \<open>
  \<open>df\<close> has 24 columns and starts with no rows. A cell that was never written reads
  as missing (\<open>None\<close>). \<open>df.at[i, c] = v\<close> writes one cell; when no row has the label
  \<open>i\<close> it appends a row whose other cells are missing.
\<close>

datatype column =
    Original | LogTimestamp | LogID | Ret | Sz | Blk | LogDataBytes
  | timestamps | echoByte | PGN | Priority | Source | Destination | DataBytes | DataLength
  | ID | BusChannel | IDE | DLC | Dir | EDL | BRS | PgnLabel | PgnInDbc

datatype cell = Str string | Num int | Float32 "32 word"

type_synonym row = "column \<Rightarrow> cell option"

type_synonym dataframe = "(nat \<times> row) list"

fun df_at_set :: "dataframe \<Rightarrow> nat \<Rightarrow> column \<Rightarrow> cell \<Rightarrow> dataframe" where
  "df_at_set [] i c v = [(i, (\<lambda>_. None)(c \<mapsto> v))]"
| "df_at_set ((j, r) # rest) i c v =
     (if j = i then (j, r(c \<mapsto> v)) # rest else (j, r) # df_at_set rest i c v)"

text \<open>Reading a cell; missing when the row or the cell is.\<close>

definition df_at :: "dataframe \<Rightarrow> nat \<Rightarrow> column \<Rightarrow> cell option" where
  "df_at df i c = (case map_of df i of None \<Rightarrow> None | Some r \<Rightarrow> r c)"

subsection \<open>Parsing the log entry: lines 49 to 80 of \<open>main\<close>\<close>

text \<open>
  \<open>.group(1)\<close> on a search that found nothing is an \<open>AttributeError\<close>. Only the
  search for \<open>Blk\<close> is guarded. The result is the data frame, \<open>dataLength\<close> and the
  stripped \<open>dataBytes_hex\<close>.
\<close>

definition parse_log_entry :: "dataframe \<Rightarrow> nat \<Rightarrow> string \<Rightarrow> error + (dataframe \<times> nat \<times> string)" where
  "parse_log_entry df i line =
     (let df = df_at_set df i Original (Str (strip line)) in
      case re_search_timestamp line of
        None \<Rightarrow> Inl AttributeError
      | Some ts \<Rightarrow>
     (let df = df_at_set df i LogTimestamp (Str ts) in
      case re_search_digits ''ID = '' line of
        None \<Rightarrow> Inl AttributeError
      | Some log_id \<Rightarrow>
     (let df = df_at_set df i LogID (Str log_id) in
      case re_search_digits ''Ret = '' line of
        None \<Rightarrow> Inl AttributeError
      | Some ret \<Rightarrow>
     (let df = df_at_set df i Ret (Str ret) in
      case re_search_digits ''Sz = '' line of
        None \<Rightarrow> Inl AttributeError
      | Some sz \<Rightarrow>
     (let df = df_at_set df i Sz (Str sz);
          blk = re_search_digits ''Blk = '' line;
          df = (case blk of Some b \<Rightarrow> df_at_set df i Blk (Str b) | None \<Rightarrow> df) in
      case re_search_data line of
        None \<Rightarrow> Inl AttributeError
      | Some dataBytes_hex \<Rightarrow>
     (let dataLength = length (findall_groups dataBytes_hex);
          dataBytes_hex = filter (\<lambda>c. c \<noteq> CHR '' '') dataBytes_hex;
          df = df_at_set df i LogDataBytes (Str dataBytes_hex)
      in Inr (df, dataLength, dataBytes_hex)))))))"

subsection \<open>Parsing the frame: lines 91 to 140 of \<open>main\<close>\<close>

definition timestamp_hex :: "string \<Rightarrow> string" where
  "timestamp_hex dataBytes_hex = slice dataBytes_hex 0 8"

definition echoByte_hex :: "string \<Rightarrow> string" where
  "echoByte_hex dataBytes_hex = slice dataBytes_hex 8 10"

definition pgn_hex :: "string \<Rightarrow> string" where
  "pgn_hex dataBytes_hex =
     slice dataBytes_hex 14 16 @ slice dataBytes_hex 12 14 @ slice dataBytes_hex 10 12"

definition priority_hex :: "string \<Rightarrow> string" where
  "priority_hex dataBytes_hex = slice dataBytes_hex 16 18"

definition source_hex :: "string \<Rightarrow> string" where
  "source_hex dataBytes_hex = slice dataBytes_hex 18 20"

definition destination_hex :: "string \<Rightarrow> string" where
  "destination_hex dataBytes_hex = slice dataBytes_hex 20 22"

definition payload_hex :: "string \<Rightarrow> string" where
  "payload_hex dataBytes_hex = slice dataBytes_hex 22 38"

text \<open>\<open>bytes.fromhex\<close> on a string without blanks: pairs of hex digits.\<close>

fun fromhex :: "string \<Rightarrow> error + 8 word list" where
  "fromhex [] = Inr []"
| "fromhex [a] = Inl ValueError"
| "fromhex (a # b # rest) =
     (if is_digit_of 16 a \<and> is_digit_of 16 b
      then (case fromhex rest of
              Inl e \<Rightarrow> Inl e
            | Inr bs \<Rightarrow> Inr (word_of_int (digits_val 16 [a, b]) # bs))
      else Inl ValueError)"

text \<open>
  \<open>struct.unpack('!f', b)[0]\<close>: four bytes in network order or \<open>struct.error\<close>. The
  float is kept as its 32-bit pattern; its numerical value is not interpreted. A pattern
  that is a NaN is a written cell here, where pandas counts such a cell as missing. No
  statement below is about the value of this column.
\<close>

definition unpack_f :: "8 word list \<Rightarrow> error + 32 word" where
  "unpack_f b =
     (case b of
        [b0, b1, b2, b3] \<Rightarrow>
          Inr (push_bit 24 (ucast b0) OR push_bit 16 (ucast b1) OR push_bit 8 (ucast b2) OR ucast b3)
      | _ \<Rightarrow> Inl StructError)"

text \<open>
  The PGN table is read from a file before \<open>main\<close> runs: here a parameter, a list of
  rows (PGN, label, flag) in file order. \<open>pgn_df[pgn_df["PGN"] == pgn_dec]\<close> keeps the
  matching rows in order; \<open>.iloc[0]\<close> of no rows is an \<open>IndexError\<close>.
\<close>

type_synonym pgn_table = "(int \<times> cell \<times> cell) list"

definition iloc0 :: "'a list \<Rightarrow> error + 'a" where
  "iloc0 rows = (case rows of [] \<Rightarrow> Inl IndexError | r # _ \<Rightarrow> Inr r)"

definition annotate :: "pgn_table \<Rightarrow> dataframe \<Rightarrow> nat \<Rightarrow> int \<Rightarrow> error + dataframe" where
  "annotate pgn_df df i pgn_dec =
     (let pgn_label_row = filter (\<lambda>r. fst r = pgn_dec) pgn_df in
      if pgn_label_row \<noteq> [] then
        (case iloc0 pgn_label_row of
           Inl e \<Rightarrow> Inl e
         | Inr r1 \<Rightarrow>
        (let df = df_at_set df i PgnLabel (fst (snd r1)) in
         case iloc0 pgn_label_row of
           Inl e \<Rightarrow> Inl e
         | Inr r2 \<Rightarrow> Inr (df_at_set df i PgnInDbc (snd (snd r2)))))
      else Inr df)"

definition parse_can_frame :: "pgn_table \<Rightarrow> dataframe \<Rightarrow> nat \<Rightarrow> string \<Rightarrow> error + dataframe" where
  "parse_can_frame pgn_df df i dataBytes_hex =
     (case fromhex (timestamp_hex dataBytes_hex) of
        Inl e \<Rightarrow> Inl e
      | Inr b \<Rightarrow>
     (case unpack_f b of
        Inl e \<Rightarrow> Inl e
      | Inr t \<Rightarrow>
     (let df = df_at_set df i timestamps (Float32 t);
          df = df_at_set df i echoByte (Str (echoByte_hex dataBytes_hex));
          df = df_at_set df i PGN (Str (pgn_hex dataBytes_hex));
          df = df_at_set df i Priority (Str (priority_hex dataBytes_hex));
          df = df_at_set df i Source (Str (source_hex dataBytes_hex));
          df = df_at_set df i Destination (Str (destination_hex dataBytes_hex));
          df = df_at_set df i DataBytes (Str (payload_hex dataBytes_hex));
          df = df_at_set df i DataLength (Num (int (length (payload_hex dataBytes_hex)) div 2))
      in
      case build_id (priority_hex dataBytes_hex) (pgn_hex dataBytes_hex) (source_hex dataBytes_hex) of
        Inl e \<Rightarrow> Inl e
      | Inr id_hex \<Rightarrow>
     (let df = df_at_set df i ID (Str id_hex);
          df = df_at_set df i BusChannel (Num 1);
          df = df_at_set df i IDE (Num 1);
          df = df_at_set df i DLC (Num 1);
          df = df_at_set df i Dir (Num 1);
          df = df_at_set df i EDL (Num 1);
          df = df_at_set df i BRS (Num 1)
      in
      case py_int (pgn_hex dataBytes_hex) 16 of
        Inl e \<Rightarrow> Inl e
      | Inr pgn_dec \<Rightarrow> annotate pgn_df df i pgn_dec))))"

subsection \<open>The loop of \<open>main\<close>\<close>

text \<open>
  One iteration on the state \<open>(df, i)\<close>. The two exit clauses leave \<open>i\<close> as it is;
  only the end of the body adds one.
\<close>

definition process_line :: "pgn_table \<Rightarrow> string \<Rightarrow> dataframe \<times> nat \<Rightarrow> error + (dataframe \<times> nat)" where
  "process_line pgn_df line st =
     (case st of (df, i) \<Rightarrow>
        if \<not> sublist ''Data:'' line then Inr (df, i)
        else
          (case parse_log_entry df i line of
             Inl e \<Rightarrow> Inl e
           | Inr (df, dataLength, dataBytes_hex) \<Rightarrow>
               if dataLength < 19 then Inr (df, i)
               else
                 (case parse_can_frame pgn_df df i dataBytes_hex of
                    Inl e \<Rightarrow> Inl e
                  | Inr df \<Rightarrow> Inr (df, i + 1))))"

fun run_lines :: "pgn_table \<Rightarrow> string list \<Rightarrow> dataframe \<times> nat \<Rightarrow> error + (dataframe \<times> nat)" where
  "run_lines pgn_df [] st = Inr st"
| "run_lines pgn_df (line # lines) st =
     (case process_line pgn_df line st of
        Inl e \<Rightarrow> Inl e
      | Inr st' \<Rightarrow> run_lines pgn_df lines st')"

text \<open>\<open>main\<close> up to the export: the data frame that \<open>to_csv\<close> receives.\<close>

definition main :: "pgn_table \<Rightarrow> string list \<Rightarrow> error + dataframe" where
  "main pgn_df lines =
     (case run_lines pgn_df lines ([], 0) of
        Inl e \<Rightarrow> Inl e
      | Inr (df, i) \<Rightarrow> Inr df)"

text \<open>The example of a log line in the comment of \<open>main\<close> (line 59).\<close>

definition example_line :: string where
  "example_line = ''000001.226604 (000.003827)  Rx() ID = 00 Ret = 0019 Sz = 02048 Blk = 1 Data:  00 11 EE B0 00 20 FF 00 03 00 FF 10 21 00 00 00 FF D0 FF''"

section \<open>Digit strings\<close>

lemma digits_val_snoc: "digits_val b (xs @ [c]) = b * digits_val b xs + the (digit_val c)"
  by (simp add: digits_val_def)

lemma digits_val_append:
  "digits_val b (xs @ ys) = digits_val b xs * b ^ length ys + digits_val b ys"
proof (induction ys rule: rev_induct)
  case Nil
  show ?case by (simp add: digits_val_def)
next
  case (snoc y ys)
  have "digits_val b (xs @ ys @ [y]) = b * digits_val b (xs @ ys) + the (digit_val y)"
    using digits_val_snoc [of b "xs @ ys" y] by simp
  then show ?case
    by (simp add: snoc.IH digits_val_snoc algebra_simps)
qed

lemma digits_val_nonneg:
  "0 \<le> b \<Longrightarrow> list_all (is_digit_of b) s \<Longrightarrow> 0 \<le> digits_val b s"
proof (induction s rule: rev_induct)
  case Nil
  show ?case by (simp add: digits_val_def)
next
  case (snoc c s)
  then have "0 \<le> the (digit_val c)"
    by (auto simp: is_digit_of_def digit_val_def Let_def split: option.splits if_splits)
  with snoc show ?case by (simp add: digits_val_snoc)
qed

lemma digit_val_digit_char: "0 \<le> d \<Longrightarrow> d < 16 \<Longrightarrow> digit_val (digit_char d) = Some d"
  by (auto simp: digit_val_def digit_char_def Let_def)

lemma digits_val_zeros: "digits_val b (replicate k CHR ''0'' @ s) = digits_val b s"
proof -
  have "digits_val b (replicate k CHR ''0'') = 0"
    by (induction k) (simp_all add: digits_val_def digit_val_def)
  then show ?thesis by (simp add: digits_val_append)
qed

lemma digits_val_digits_of:
  "2 \<le> b \<Longrightarrow> b \<le> 16 \<Longrightarrow> 0 \<le> n \<Longrightarrow> digits_val b (digits_of b n) = n"
proof (induction b n rule: digits_of.induct)
  case (1 base n)
  show ?case
  proof (cases "n < base")
    case True
    with 1 show ?thesis
      by (simp add: digits_of.simps [of base n] digits_val_def digit_val_digit_char)
  next
    case False
    have "0 \<le> n mod base" "n mod base < base" using 1(2) by simp_all
    then have d: "digit_val (digit_char (n mod base)) = Some (n mod base)"
      using 1(3) by (intro digit_val_digit_char) linarith+
    have "0 \<le> n div base" using 1(2,4) by (simp add: pos_imp_zdiv_nonneg_iff)
    then show ?thesis using False 1
      by (simp add: digits_of.simps [of base n] digits_val_snoc d)
  qed
qed

lemma digits_of_valid:
  "2 \<le> b \<Longrightarrow> b \<le> 16 \<Longrightarrow> 0 \<le> n \<Longrightarrow> list_all (is_digit_of b) (digits_of b n)"
proof (induction b n rule: digits_of.induct)
  case (1 base n)
  show ?case
  proof (cases "n < base")
    case True
    with 1 show ?thesis
      by (simp add: digits_of.simps [of base n] is_digit_of_def digit_val_digit_char)
  next
    case False
    have m: "0 \<le> n mod base" "n mod base < base" using 1(2) by simp_all
    then have d: "digit_val (digit_char (n mod base)) = Some (n mod base)"
      using 1(3) by (intro digit_val_digit_char) linarith+
    have "0 \<le> n div base" using 1(2,4) by (simp add: pos_imp_zdiv_nonneg_iff)
    then show ?thesis using False 1 m(2)
      by (simp add: digits_of.simps [of base n] is_digit_of_def d)
  qed
qed

lemma digits_of_nonempty: "digits_of b n \<noteq> []"
  by (subst digits_of.simps) simp

lemma int_div_less: "0 < b \<Longrightarrow> n < b * m \<Longrightarrow> n div b < (m::int)"
proof -
  assume b: "0 < b" and n: "n < b * m"
  have "b * (n div b) + n mod b = n" by (rule mult_div_mod_eq)
  moreover have "0 \<le> n mod b" using b by simp
  ultimately have "b * (n div b) < b * m" using n by linarith
  then show ?thesis using b by (simp add: mult_less_cancel_left_pos)
qed

lemma length_digits_of_le:
  "2 \<le> b \<Longrightarrow> 0 < k \<Longrightarrow> n < b ^ k \<Longrightarrow> length (digits_of b n) \<le> k"
proof (induction b n arbitrary: k rule: digits_of.induct)
  case (1 base n)
  show ?case
  proof (cases "n < base")
    case True
    with 1 show ?thesis by (simp add: digits_of.simps [of base n])
  next
    case False
    then obtain k' where k: "k = Suc k'" using 1 by (cases k) auto
    have "k' \<noteq> 0" using False 1(4) k by (cases k') auto
    moreover have "n div base < base ^ k'"
      using 1(2,4) k by (intro int_div_less) simp_all
    ultimately have "length (digits_of base (n div base)) \<le> k'"
      using 1(1) [of k'] False 1(2) by simp
    then show ?thesis using False 1(2) k by (simp add: digits_of.simps [of base n])
  qed
qed

lemma py_int_Inr_iff:
  "py_int s b = Inr n \<longleftrightarrow> s \<noteq> [] \<and> list_all (is_digit_of b) s \<and> n = digits_val b s"
  by (auto simp: py_int_def)

lemma py_int_nonneg: "0 \<le> b \<Longrightarrow> py_int s b = Inr n \<Longrightarrow> 0 \<le> n"
  by (simp add: py_int_Inr_iff digits_val_nonneg)

lemma not_digit_sign: "is_digit_of b c \<Longrightarrow> c \<noteq> CHR ''+'' \<and> c \<noteq> CHR ''-''"
  by (auto simp: is_digit_of_def digit_val_def)

lemma zfill_digits:
  "list_all (is_digit_of b) s \<Longrightarrow> zfill s w = replicate (w - length s) CHR ''0'' @ s"
  by (cases s) (auto simp: zfill_def dest: not_digit_sign)

lemma drop_bin: "0 \<le> n \<Longrightarrow> drop 2 (bin n) = digits_of 2 n"
  by (simp add: bin_def)

lemma zero_is_digit: "0 < b \<Longrightarrow> is_digit_of b CHR ''0''"
  by (simp add: is_digit_of_def digit_val_def)

lemma zeros_are_digits: "0 < b \<Longrightarrow> list_all (is_digit_of b) (replicate k CHR ''0'')"
  by (induction k) (simp_all add: zero_is_digit)

section \<open>The identifier\<close>

lemma and_mask_7: "(x::int) AND 7 = x mod 8"
proof -
  have "(7::int) = mask 3" by (simp add: mask_eq_exp_minus_1)
  then have "x AND 7 = x mod 2 ^ 3" by (simp only: take_bit_eq_mask [symmetric] take_bit_eq_mod)
  then show ?thesis by simp
qed

lemma and_mask_3FFFF: "(x::int) AND 0x3FFFF = x mod 2 ^ 18"
proof -
  have "(0x3FFFF::int) = mask 18" by (simp add: mask_eq_exp_minus_1)
  then show ?thesis by (simp only: take_bit_eq_mask [symmetric] take_bit_eq_mod)
qed

lemma and_mask_FF: "(x::int) AND 0xFF = x mod 2 ^ 8"
proof -
  have "(0xFF::int) = mask 8" by (simp add: mask_eq_exp_minus_1)
  then show ?thesis by (simp only: take_bit_eq_mask [symmetric] take_bit_eq_mod)
qed

lemma push_bit_or_low:
  "0 \<le> lo \<Longrightarrow> lo < 2 ^ n \<Longrightarrow> push_bit n hi OR lo = hi * 2 ^ n + (lo::int)"
proof -
  assume "0 \<le> lo" "lo < 2 ^ n"
  then have "take_bit n lo = lo" by (simp add: take_bit_int_eq_self)
  then have "push_bit n hi OR lo = concat_bit n lo hi"
    by (simp add: concat_bit_def or.commute)
  also have "\<dots> = take_bit n lo + push_bit n hi" by (rule concat_bit_eq)
  finally show ?thesis using \<open>take_bit n lo = lo\<close> by (simp add: push_bit_eq_mult)
qed

lemma id_fields:
  fixes p g s :: int
  assumes "0 \<le> p" "0 \<le> g" "g < 2 ^ 18" "0 \<le> s" "s < 2 ^ 8"
  shows "drop_bit 26 ((p * 2 ^ 18 + g) * 2 ^ 8 + s) = p"
    and "drop_bit 8 ((p * 2 ^ 18 + g) * 2 ^ 8 + s) mod 2 ^ 18 = g"
    and "((p * 2 ^ 18 + g) * 2 ^ 8 + s) mod 2 ^ 8 = s"
proof -
  let ?n = "(p * 2 ^ 18 + g) * 2 ^ 8 + s"
  have "?n = p * 2 ^ 26 + (g * 2 ^ 8 + s)" by (simp add: algebra_simps)
  moreover have "0 \<le> g * 2 ^ 8 + s" "g * 2 ^ 8 + s < 2 ^ 26" using assms by auto
  ultimately show "drop_bit 26 ?n = p" by (simp add: drop_bit_eq_div)
  have "?n div 2 ^ 8 = p * 2 ^ 18 + g" using assms by simp
  then show "drop_bit 8 ?n mod 2 ^ 18 = g" using assms by (simp add: drop_bit_eq_div)
  have "?n mod 2 ^ 8 = s mod 2 ^ 8" by (simp only: mod_mult_self3)
  then show "?n mod 2 ^ 8 = s" using assms by simp
qed

lemma masked_formula:
  fixes p g s :: int
  shows "push_bit 26 (p AND 7) OR push_bit 8 (g AND 0x3FFFF) OR (s AND 0xFF)
           = (p mod 8) * 2 ^ 26 + (g mod 2 ^ 18) * 2 ^ 8 + s mod 2 ^ 8"
proof -
  have a: "push_bit 8 (g mod 2 ^ 18) OR s mod 2 ^ 8 = (g mod 2 ^ 18) * 2 ^ 8 + s mod 2 ^ 8"
    by (rule push_bit_or_low) simp_all
  have "0 \<le> g mod 2 ^ 18" "g mod 2 ^ 18 < 2 ^ 18" "0 \<le> s mod 2 ^ 8" "s mod 2 ^ 8 < 2 ^ 8"
    by simp_all
  then have b: "0 \<le> (g mod 2 ^ 18) * 2 ^ 8 + s mod 2 ^ 8"
     "(g mod 2 ^ 18) * 2 ^ 8 + s mod 2 ^ 8 < 2 ^ 26" by simp_all
  have "push_bit 26 (p mod 8) OR ((g mod 2 ^ 18) * 2 ^ 8 + s mod 2 ^ 8)
          = (p mod 8) * 2 ^ 26 + ((g mod 2 ^ 18) * 2 ^ 8 + s mod 2 ^ 8)"
    using b by (rule push_bit_or_low)
  then show ?thesis
    by (simp only: and_mask_7 and_mask_3FFFF and_mask_FF a or.assoc add.assoc)
qed

lemma unmasked_eq_masked_iff:
  fixes p g s :: int
  assumes "0 \<le> p" "0 \<le> g" "0 \<le> s" "18 \<le> w2" "8 \<le> w3"
    and r2: "g < 2 ^ 18 \<Longrightarrow> w2 = 18" and r3: "s < 2 ^ 8 \<Longrightarrow> w3 = 8"
  shows "(p * 2 ^ w2 + g) * 2 ^ w3 + s = (p mod 8) * 2 ^ 26 + (g mod 2 ^ 18) * 2 ^ 8 + s mod 2 ^ 8
          \<longleftrightarrow> p \<le> 7 \<and> g < 2 ^ 18 \<and> s \<le> 255"
proof
  assume "p \<le> 7 \<and> g < 2 ^ 18 \<and> s \<le> 255"
  then show "(p * 2 ^ w2 + g) * 2 ^ w3 + s = (p mod 8) * 2 ^ 26 + (g mod 2 ^ 18) * 2 ^ 8 + s mod 2 ^ 8"
    using assms by simp
next
  assume eq: "(p * 2 ^ w2 + g) * 2 ^ w3 + s = (p mod 8) * 2 ^ 26 + (g mod 2 ^ 18) * 2 ^ 8 + s mod 2 ^ 8"
  have "(2::int) ^ 26 \<le> 2 ^ (w2 + w3)" using assms(4,5) by (intro power_increasing) auto
  then have A: "p * 2 ^ 26 \<le> p * 2 ^ (w2 + w3)" using assms(1) by (rule mult_left_mono)
  have "(2::int) ^ 8 \<le> 2 ^ w3" using assms(5) by (intro power_increasing) auto
  then have B: "g * 2 ^ 8 \<le> g * 2 ^ w3" using assms(2) by (rule mult_left_mono)
  have n: "(p * 2 ^ w2 + g) * 2 ^ w3 + s = p * 2 ^ (w2 + w3) + g * 2 ^ w3 + s"
    by (simp add: algebra_simps power_add)
  define A' where "A' = p * 2 ^ (w2 + w3)"
  define B' where "B' = g * 2 ^ w3"
  have "A' + B' + s = (p mod 8) * 67108864 + (g mod 262144) * 256 + s mod 256"
    using eq n by (simp add: A'_def B'_def)
  moreover have "p * 67108864 \<le> A'" "g * 256 \<le> B'" using A B by (simp_all add: A'_def B'_def)
  moreover have "p mod 8 \<le> p" "g mod 262144 \<le> g" "s mod 256 \<le> s"
    using assms(1-3) by (simp_all add: zmod_le_nonneg_dividend)
  ultimately have "p = p mod 8" "g = g mod 262144" "s = s mod 256" by linarith+
  moreover have "p mod 8 < 8" "g mod 262144 < 262144" "s mod 256 < 256" by simp_all
  ultimately have "p < 8" "g < 262144" "s < 256" by linarith+
  then show "p \<le> 7 \<and> g < 2 ^ 18 \<and> s \<le> 255" by simp
qed

lemma hexStr2binStr_eq:
  assumes "py_int h 16 = Inr n"
  shows "hexStr2binStr h k = Inr (replicate (k - length (digits_of 2 n)) CHR ''0'' @ digits_of 2 n)"
proof -
  have n: "0 \<le> n" using assms by (auto dest: py_int_nonneg [rotated])
  then have "list_all (is_digit_of 2) (digits_of 2 n)" by (simp add: digits_of_valid)
  then show ?thesis using assms n
    by (simp add: hexStr2binStr_def drop_bin zfill_digits [of 2])
qed

lemma binStr2HexStr_fields:
  assumes "0 \<le> p" "0 \<le> g" "0 \<le> s"
  shows "binStr2HexStr ((replicate k1 CHR ''0'' @ digits_of 2 p)
            @ (replicate k2 CHR ''0'' @ digits_of 2 g) @ (replicate k3 CHR ''0'' @ digits_of 2 s)) =
     Inr (format_04X ((p * 2 ^ (k2 + length (digits_of 2 g)) + g)
                              * 2 ^ (k3 + length (digits_of 2 s)) + s))"
proof -
  let ?b = "(replicate k1 CHR ''0'' @ digits_of 2 p)
            @ (replicate k2 CHR ''0'' @ digits_of 2 g) @ (replicate k3 CHR ''0'' @ digits_of 2 s)"
  have v: "list_all (is_digit_of 2) ?b" using assms by (simp add: digits_of_valid zeros_are_digits)
  have ne: "?b \<noteq> []" by (simp add: digits_of_nonempty)
  have z: "\<And>k n. 0 \<le> n \<Longrightarrow> digits_val 2 (replicate k CHR ''0'' @ digits_of 2 n) = n"
    by (simp add: digits_val_zeros digits_val_digits_of)
  have "digits_val 2 ?b = (p * 2 ^ (k2 + length (digits_of 2 g)) + g)
                              * 2 ^ (k3 + length (digits_of 2 s)) + s"
    using assms by (simp only: digits_val_append [of 2 "replicate k1 CHR ''0'' @ digits_of 2 p"]
        digits_val_append [of 2 "replicate k2 CHR ''0'' @ digits_of 2 g"] z length_append length_replicate)
      (simp add: algebra_simps power_add)
  with v ne show ?thesis by (simp only: binStr2HexStr_def py_int_def) simp
qed

lemma build_id_value:
  assumes "py_int ph 16 = Inr p" "py_int gh 16 = Inr g" "py_int sh 16 = Inr s"
  shows "build_id ph gh sh =
     Inr (format_04X ((p * 2 ^ max 18 (length (drop 2 (bin g))) + g)
                              * 2 ^ max 8 (length (drop 2 (bin s))) + s))"
proof -
  have nn: "0 \<le> p" "0 \<le> g" "0 \<le> s" using assms by (auto dest: py_int_nonneg [rotated])
  have m: "\<And>k l::nat. k - l + l = max k l" by simp
  show ?thesis
    by (simp only: build_id_def hexStr2binStr_eq [OF assms(1)] hexStr2binStr_eq [OF assms(2)]
        hexStr2binStr_eq [OF assms(3)] sum.case binStr2HexStr_fields [OF nn] m drop_bin [OF nn(2)] drop_bin [OF nn(3)])
qed

lemma py_int_format_04X: "0 \<le> n \<Longrightarrow> py_int (format_04X n) 16 = Inr n"
proof -
  assume n: "0 \<le> n"
  let ?d = "digits_of 16 n"
  have "format_04X n = replicate (4 - length ?d) CHR ''0'' @ ?d"
    using n by (simp add: format_04X_def format_X_def Let_def)
  moreover have "list_all (is_digit_of 16) (replicate (4 - length ?d) CHR ''0'' @ ?d)"
    using n by (simp add: digits_of_valid zeros_are_digits)
  moreover have "digits_val 16 (replicate (4 - length ?d) CHR ''0'' @ ?d) = n"
    using n by (simp add: digits_val_zeros digits_val_digits_of)
  ultimately show ?thesis using n by (simp add: py_int_def digits_of_nonempty)
qed

lemma bits_in_range:
  "0 \<le> g \<Longrightarrow> g < 2 ^ k \<Longrightarrow> 0 < k \<Longrightarrow> max k (length (drop 2 (bin g))) = k"
proof -
  assume a: "0 \<le> g" "g < 2 ^ k" "0 < k"
  then have "length (digits_of 2 g) \<le> k" by (simp add: length_digits_of_le)
  then show ?thesis using a(1) by (simp add: drop_bin)
qed

section \<open>The searches\<close>

lemma search_after_None: "search_after lit line = None \<longleftrightarrow> \<not> sublist lit line"
  by (induction line) (auto simp: sublist_Cons_right)

lemma search_after_Some:
  "search_after lit line = Some rest \<Longrightarrow> \<exists>pre. line = pre @ lit @ rest"
proof (induction line)
  case Nil
  then show ?case by (simp split: if_splits)
next
  case (Cons c cs)
  show ?case
  proof (cases "prefix lit (c # cs)")
    case True
    then obtain zs where "c # cs = lit @ zs" by (auto simp: prefix_def)
    moreover from True Cons.prems have "rest = drop (length lit) (c # cs)" by simp
    ultimately have "c # cs = [] @ lit @ rest" by simp
    then show ?thesis by blast
  next
    case False
    with Cons.prems have "search_after lit cs = Some rest" by simp
    then obtain pre where "cs = pre @ lit @ rest" using Cons.IH by blast
    then have "c # cs = (c # pre) @ lit @ rest" by simp
    then show ?thesis by blast
  qed
qed

lemma search_last_None: "search_last lit s = None \<longleftrightarrow> \<not> sublist lit s"
  by (induction s) (auto simp: sublist_Cons_right split: option.splits)

lemma re_search_digits_None: "re_search_digits lit line = None \<longleftrightarrow> \<not> sublist lit line"
  by (simp add: re_search_digits_def search_after_None)

lemma re_search_data_None: "re_search_data line = None \<longleftrightarrow> \<not> sublist ''Data: '' line"
  by (simp add: re_search_data_def search_after_None)

lemma re_search_timestamp_None:
  "re_search_timestamp line = None \<longleftrightarrow> \<not> sublist '' ('' (takeWhile (\<lambda>c. c \<noteq> CHR 0x0A) line)"
  by (simp add: re_search_timestamp_def search_last_None)

lemma re_search_digits_Some:
  assumes "re_search_digits lit line = Some v"
  shows "list_all is_09 v \<and> sublist (lit @ v) line"
proof -
  from assms obtain rest where r: "search_after lit line = Some rest" and v: "v = takeWhile is_09 rest"
    by (auto simp: re_search_digits_def)
  from r obtain pre where "line = pre @ lit @ rest" using search_after_Some by blast
  then have "line = pre @ (lit @ v) @ dropWhile is_09 rest" using v by simp
  then have "sublist (lit @ v) line" by (metis sublist_appendI)
  moreover have "list_all is_09 v" unfolding v list_all_iff by (auto dest: set_takeWhileD)
  ultimately show ?thesis by simp
qed

lemma re_search_digits_empty:
  assumes "sublist lit line" and "\<forall>c. is_09 c \<longrightarrow> \<not> sublist (lit @ [c]) line"
  shows "re_search_digits lit line = Some []"
proof -
  from assms(1) obtain v where v: "re_search_digits lit line = Some v"
    using re_search_digits_None [of lit line] by (cases "re_search_digits lit line") auto
  have "v = []"
  proof (cases v)
    case Nil
    then show ?thesis .
  next
    case (Cons c w)
    from re_search_digits_Some [OF v] have d: "is_09 c" and s: "sublist (lit @ c # w) line"
      using Cons by simp_all
    have "sublist (lit @ [c]) (lit @ c # w)"
      using sublist_append_rightI [of "lit @ [c]" w] by simp
    then have "sublist (lit @ [c]) line" using s sublist_order.order_trans by blast
    with d assms(2) show ?thesis by blast
  qed
  with v show ?thesis by simp
qed

section \<open>The data frame\<close>

lemma df_at_df_at_set:
  "df_at (df_at_set df i c v) j c' = (if j = i \<and> c' = c then Some v else df_at df j c')"
  by (induction df) (auto simp: df_at_def)

section \<open>The accepted payload\<close>

lemma is_09AF_digit: "is_09AF c \<Longrightarrow> is_digit_of 16 c"
  by (auto simp: is_09AF_def is_digit_of_def digit_val_def)

lemma findall_groups_length:
  "2 * length (findall_groups s) \<le> length (filter (\<lambda>c. c \<noteq> CHR '' '') s)"
proof (induction s rule: findall_groups.induct)
  case (1 a b c rest)
  show ?case
  proof (cases "a = CHR '' '' \<and> is_09AF b \<and> is_09AF c")
    case True
    then have "b \<noteq> CHR '' ''" "c \<noteq> CHR '' ''" by (auto simp: is_09AF_def)
    with True 1(1) show ?thesis by simp
  next
    case False
    with 1(2) have "2 * length (findall_groups (a # b # c # rest))
        \<le> length (filter (\<lambda>c. c \<noteq> CHR '' '') (b # c # rest))" by auto
    also have "\<dots> \<le> length (filter (\<lambda>c. c \<noteq> CHR '' '') (a # b # c # rest))" by simp
    finally show ?thesis .
  qed
qed simp_all

lemma parse_log_entry_Inr:
  "parse_log_entry df i line = Inr (df', n, d) \<Longrightarrow>
     \<exists>raw. re_search_data line = Some raw \<and> n = length (findall_groups raw)
            \<and> d = filter (\<lambda>c. c \<noteq> CHR '' '') raw"
  by (auto simp: parse_log_entry_def Let_def split: option.splits)

lemma re_search_data_chars:
  "re_search_data line = Some raw \<Longrightarrow> \<forall>c\<in>set raw. is_09AF c \<or> c = CHR '' ''"
  by (auto simp: re_search_data_def dest: set_takeWhileD)

lemma accepted_payload:
  assumes "parse_log_entry df i line = Inr (df', n, d)" and "19 \<le> n"
  shows "list_all is_09AF d" and "38 \<le> length d"
proof -
  from parse_log_entry_Inr [OF assms(1)] obtain raw where
    raw: "re_search_data line = Some raw" and n: "n = length (findall_groups raw)"
    and d: "d = filter (\<lambda>c. c \<noteq> CHR '' '') raw" by blast
  from re_search_data_chars [OF raw] show "list_all is_09AF d"
    unfolding d list_all_iff by auto
  from findall_groups_length [of raw] assms(2) show "38 \<le> length d"
    unfolding d n by linarith
qed

lemma slice_length: "b \<le> length d \<Longrightarrow> length (slice d a b) = b - a"
  by (simp add: slice_def)

lemma slice_valid:
  "list_all is_09AF d \<Longrightarrow> list_all (is_digit_of 16) (slice d a b)"
  unfolding slice_def list_all_iff
  by (meson in_set_dropD in_set_takeD is_09AF_digit)

lemma py_int_slice:
  assumes "list_all is_09AF d" "a < b" "b \<le> length d"
  shows "py_int (slice d a b) 16 = Inr (digits_val 16 (slice d a b))"
proof -
  have "length (slice d a b) = b - a" using assms(3) by (rule slice_length)
  then have "slice d a b \<noteq> []" using assms(2) by auto
  then show ?thesis using slice_valid [OF assms(1)] by (simp add: py_int_def)
qed

lemma digits_val_bound:
  "0 < b \<Longrightarrow> list_all (is_digit_of b) s \<Longrightarrow> digits_val b s < b ^ length s"
proof (induction s rule: rev_induct)
  case Nil
  show ?case by (simp add: digits_val_def)
next
  case (snoc c s)
  then have v: "digits_val b s + 1 \<le> b ^ length s" by simp
  from snoc.prems obtain x where x: "digit_val c = Some x" "x < b"
    by (auto simp: is_digit_of_def split: option.splits)
  have "b * (digits_val b s + 1) \<le> b * b ^ length s"
    using v snoc.prems(1) by (intro mult_left_mono) simp_all
  then have "b * digits_val b s + x < b * b ^ length s" using x(2) by (simp add: algebra_simps)
  then show ?case using x by (simp add: digits_val_snoc)
qed

lemma byte_range:
  assumes "list_all is_09AF d" "b \<le> length d" "b = a + 2"
  shows "0 \<le> digits_val 16 (slice d a b)" "digits_val 16 (slice d a b) < 2 ^ 8"
proof -
  have v: "list_all (is_digit_of 16) (slice d a b)" using assms(1) by (rule slice_valid)
  then show "0 \<le> digits_val 16 (slice d a b)" by (simp add: digits_val_nonneg)
  have "length (slice d a b) = 2" using assms(2,3) by (simp add: slice_length)
  with digits_val_bound [OF _ v] show "digits_val 16 (slice d a b) < 2 ^ 8" by simp
qed

lemma int_each_valid:
  "\<forall>x\<in>set xs. x \<noteq> [] \<and> list_all (is_digit_of 16) x \<Longrightarrow> int_each xs = Inr (map (digits_val 16) xs)"
  by (induction xs) (simp_all add: py_int_def)

lemma HexStrToListOfInts_valid:
  assumes "list_all is_09AF d"
  shows "HexStrToListOfInts d =
           Inr (map (\<lambda>k. digits_val 16 (slice d (2 * k) (2 * k + 2))) [0 ..< (length d + 1) div 2])"
proof -
  let ?hexs = "map (\<lambda>k. slice d (2 * k) (2 * k + 2)) [0 ..< (length d + 1) div 2]"
  have "\<forall>x\<in>set ?hexs. x \<noteq> [] \<and> list_all (is_digit_of 16) x"
  proof
    fix x assume "x \<in> set ?hexs"
    then obtain k where k: "k < (length d + 1) div 2" and x: "x = slice d (2 * k) (2 * k + 2)" by auto
    from k have "2 * k < length d" by linarith
    then have "x \<noteq> []" unfolding x slice_def by simp
    then show "x \<noteq> [] \<and> list_all (is_digit_of 16) x" using slice_valid [OF assms] x by simp
  qed
  then have "int_each ?hexs = Inr (map (digits_val 16) ?hexs)" by (rule int_each_valid)
  then show ?thesis by (simp add: HexStrToListOfInts_def Let_def comp_def)
qed

lemma pgn_dec_value:
  assumes "list_all is_09AF d" "38 \<le> length d"
  shows "py_int (pgn_hex d) 16 =
           Inr (digits_val 16 (slice d 14 16) * 2 ^ 16
                + (digits_val 16 (slice d 12 14) * 2 ^ 8 + digits_val 16 (slice d 10 12)))"
proof -
  have l: "length (slice d 14 16) = 2" "length (slice d 12 14) = 2" "length (slice d 10 12) = 2"
    using assms(2) by (simp_all add: slice_length)
  have v: "list_all (is_digit_of 16) (pgn_hex d)"
    using slice_valid [OF assms(1)] by (simp add: pgn_hex_def)
  have ne: "pgn_hex d \<noteq> []" using l(1) by (auto simp: pgn_hex_def)
  have "digits_val 16 (pgn_hex d) = digits_val 16 (slice d 14 16) * 2 ^ 16
                + (digits_val 16 (slice d 12 14) * 2 ^ 8 + digits_val 16 (slice d 10 12))"
    unfolding pgn_hex_def by (simp add: digits_val_append l)
  with v ne show ?thesis by (simp add: py_int_def)
qed

lemma shift_or_bytes:
  fixes b0 b1 b2 :: int
  assumes "0 \<le> b0" "b0 < 2 ^ 8" "0 \<le> b1" "b1 < 2 ^ 8"
  shows "push_bit 16 b2 OR push_bit 8 b1 OR b0 = b2 * 2 ^ 16 + (b1 * 2 ^ 8 + b0)"
proof -
  have a: "push_bit 8 b1 OR b0 = b1 * 2 ^ 8 + b0" using assms(1,2) by (rule push_bit_or_low)
  have "0 \<le> b1 * 2 ^ 8 + b0" "b1 * 2 ^ 8 + b0 < 2 ^ 16" using assms by simp_all
  then have "push_bit 16 b2 OR (b1 * 2 ^ 8 + b0) = b2 * 2 ^ 16 + (b1 * 2 ^ 8 + b0)"
    by (rule push_bit_or_low)
  then show ?thesis by (simp only: a)
qed

section \<open>The frame stage never raises on an accepted payload\<close>

lemma fromhex_valid:
  "list_all (is_digit_of 16) s \<Longrightarrow> even (length s) \<Longrightarrow>
     \<exists>bs. fromhex s = Inr bs \<and> length bs = length s div 2"
  by (induction s rule: fromhex.induct) auto

lemma unpack_f_4: "length b = 4 \<Longrightarrow> \<exists>t. unpack_f b = Inr t"
proof -
  assume "length b = 4"
  then obtain b0 b1 b2 b3 where "b = [b0, b1, b2, b3]"
    by (auto simp: length_Suc_conv numeral_eq_Suc)
  then show ?thesis by (simp add: unpack_f_def)
qed

lemma timestamp_ok:
  assumes "list_all is_09AF d" "38 \<le> length d"
  shows "\<exists>b t. fromhex (timestamp_hex d) = Inr b \<and> unpack_f b = Inr t"
proof -
  have "length (timestamp_hex d) = 8" using assms(2) by (simp add: timestamp_hex_def slice_length)
  moreover have "list_all (is_digit_of 16) (timestamp_hex d)"
    unfolding timestamp_hex_def using assms(1) by (rule slice_valid)
  ultimately obtain b where b: "fromhex (timestamp_hex d) = Inr b" "length b = 4"
    using fromhex_valid [of "timestamp_hex d"] by auto
  with unpack_f_4 [of b] show ?thesis by blast
qed

lemma frame_fields_ok:
  assumes "list_all is_09AF d" "38 \<le> length d"
  shows "\<exists>p. py_int (priority_hex d) 16 = Inr p"
    and "\<exists>g. py_int (pgn_hex d) 16 = Inr g"
    and "\<exists>s. py_int (source_hex d) 16 = Inr s"
proof -
  show "\<exists>p. py_int (priority_hex d) 16 = Inr p"
    unfolding priority_hex_def using py_int_slice [OF assms(1), of 16 18] assms(2) by simp
  show "\<exists>g. py_int (pgn_hex d) 16 = Inr g" using pgn_dec_value [OF assms] by blast
  show "\<exists>s. py_int (source_hex d) 16 = Inr s"
    unfolding source_hex_def using py_int_slice [OF assms(1), of 18 20] assms(2) by simp
qed

lemma build_id_ok:
  assumes "list_all is_09AF d" "38 \<le> length d"
  shows "\<exists>id_hex. build_id (priority_hex d) (pgn_hex d) (source_hex d) = Inr id_hex"
proof -
  from frame_fields_ok [OF assms] obtain p g s where
    "py_int (priority_hex d) 16 = Inr p" "py_int (pgn_hex d) 16 = Inr g"
    "py_int (source_hex d) 16 = Inr s" by blast
  from build_id_value [OF this] show ?thesis by blast
qed

lemma iloc0_filter: "rows \<noteq> [] \<Longrightarrow> iloc0 rows = Inr (hd rows)"
  by (cases rows) (simp_all add: iloc0_def)

lemma annotate_eq:
  "annotate pgn_df df i pgn_dec =
     Inr (case filter (\<lambda>r. fst r = pgn_dec) pgn_df of
            [] \<Rightarrow> df
          | r # _ \<Rightarrow> df_at_set (df_at_set df i PgnLabel (fst (snd r))) i PgnInDbc (snd (snd r)))"
  by (cases "filter (\<lambda>r. fst r = pgn_dec) pgn_df") (simp_all add: annotate_def iloc0_def Let_def)

lemma parse_can_frame_ok:
  assumes "list_all is_09AF d" "38 \<le> length d"
  shows "\<exists>df''. parse_can_frame pgn_df df i d = Inr df''"
proof -
  from timestamp_ok [OF assms] obtain b t where
    t: "fromhex (timestamp_hex d) = Inr b" "unpack_f b = Inr t" by blast
  from build_id_ok [OF assms] obtain id_hex where
    i: "build_id (priority_hex d) (pgn_hex d) (source_hex d) = Inr id_hex" by blast
  from frame_fields_ok(2) [OF assms] obtain g where g: "py_int (pgn_hex d) 16 = Inr g" by blast
  show ?thesis by (simp add: parse_can_frame_def t i g Let_def annotate_eq)
qed

section \<open>Which cells a stage writes\<close>

lemma annotate_cells:
  assumes "annotate pgn_df df i pgn_dec = Inr df'"
  shows "j \<noteq> i \<or> (c \<noteq> PgnLabel \<and> c \<noteq> PgnInDbc) \<Longrightarrow> df_at df' j c = df_at df j c"
  using assms unfolding annotate_eq
  by (auto simp: df_at_df_at_set split: list.splits)

lemma parse_can_frame_Inr:
  assumes "parse_can_frame pgn_df df i d = Inr df''"
  shows "\<exists>b t id_hex pgn_dec df1.
           fromhex (timestamp_hex d) = Inr b \<and> unpack_f b = Inr t
         \<and> build_id (priority_hex d) (pgn_hex d) (source_hex d) = Inr id_hex
         \<and> py_int (pgn_hex d) 16 = Inr pgn_dec
         \<and> annotate pgn_df df1 i pgn_dec = Inr df''
         \<and> (\<forall>j c. df_at df1 j c =
               (if j \<noteq> i then df_at df j c
                else if c = timestamps then Some (Float32 t)
                else if c = echoByte then Some (Str (echoByte_hex d))
                else if c = PGN then Some (Str (pgn_hex d))
                else if c = Priority then Some (Str (priority_hex d))
                else if c = Source then Some (Str (source_hex d))
                else if c = Destination then Some (Str (destination_hex d))
                else if c = DataBytes then Some (Str (payload_hex d))
                else if c = DataLength then Some (Num (int (length (payload_hex d)) div 2))
                else if c = ID then Some (Str id_hex)
                else if c \<in> {BusChannel, IDE, DLC, Dir, EDL, BRS} then Some (Num 1)
                else df_at df i c))"
  using assms unfolding parse_can_frame_def Let_def
  by (auto simp: df_at_df_at_set split: sum.splits)

section \<open>The log-entry stage\<close>

lemma parse_log_entry_succeeds_iff:
  "(\<exists>df' n d. parse_log_entry df i line = Inr (df', n, d)) \<longleftrightarrow>
     re_search_timestamp line \<noteq> None \<and> re_search_digits ''ID = '' line \<noteq> None
     \<and> re_search_digits ''Ret = '' line \<noteq> None \<and> re_search_digits ''Sz = '' line \<noteq> None
     \<and> re_search_data line \<noteq> None"
  by (auto simp: parse_log_entry_def Let_def split: option.splits)

lemma parse_log_entry_Inl: "parse_log_entry df i line = Inl e \<Longrightarrow> e = AttributeError"
  by (auto simp: parse_log_entry_def Let_def split: option.splits)

lemma parse_log_entry_cells:
  assumes "parse_log_entry df i line = Inr (df', n, d)"
  shows "df_at df' j c =
           (if j \<noteq> i then df_at df j c
            else if c = Original then Some (Str (strip line))
            else if c = LogTimestamp then map_option Str (re_search_timestamp line)
            else if c = LogID then map_option Str (re_search_digits ''ID = '' line)
            else if c = Ret then map_option Str (re_search_digits ''Ret = '' line)
            else if c = Sz then map_option Str (re_search_digits ''Sz = '' line)
            else if c = Blk then
              (case re_search_digits ''Blk = '' line of
                 Some b \<Rightarrow> Some (Str b) | None \<Rightarrow> df_at df i Blk)
            else if c = LogDataBytes then Some (Str d)
            else df_at df i c)"
  using assms unfolding parse_log_entry_def Let_def
  by (auto simp: df_at_df_at_set split: option.splits)

lemma data_marker: "sublist ''Data: '' line \<Longrightarrow> sublist ''Data:'' line"
proof -
  assume "sublist ''Data: '' line"
  moreover have "sublist ''Data:'' ''Data: ''" using sublist_append_rightI [of "''Data:''" "'' ''"] by simp
  ultimately show ?thesis using sublist_order.order_trans by blast
qed

lemma parsed_has_marker:
  "parse_log_entry df i line = Inr (df', n, d) \<Longrightarrow> sublist ''Data:'' line"
proof -
  assume "parse_log_entry df i line = Inr (df', n, d)"
  then have "re_search_data line \<noteq> None" using parse_log_entry_succeeds_iff [of df i line] by blast
  then show ?thesis by (simp add: re_search_data_None data_marker)
qed

section \<open>One iteration\<close>

lemma process_line_short:
  assumes "parse_log_entry df i line = Inr (df', n, d)" "n < 19"
  shows "process_line pgn_df line (df, i) = Inr (df', i)"
  using assms parsed_has_marker [OF assms(1)] by (simp add: process_line_def)

lemma process_line_accepted:
  assumes "parse_log_entry df i line = Inr (df', n, d)" "19 \<le> n"
  shows "\<exists>df''. parse_can_frame pgn_df df' i d = Inr df''
               \<and> process_line pgn_df line (df, i) = Inr (df'', i + 1)"
proof -
  note v = accepted_payload [OF assms]
  from parse_can_frame_ok [OF v] obtain df'' where "parse_can_frame pgn_df df' i d = Inr df''"
    by blast
  then show ?thesis using assms parsed_has_marker [OF assms(1)] by (simp add: process_line_def)
qed

lemma process_line_Inl:
  assumes "process_line pgn_df line st = Inl e"
  shows "e = AttributeError"
proof -
  obtain df i where st: "st = (df, i)" by (cases st)
  show ?thesis
  proof (cases "parse_log_entry df i line")
    case (Inl e')
    with assms st have "e = e'" by (simp add: process_line_def split: if_splits)
    with Inl show ?thesis by (simp add: parse_log_entry_Inl)
  next
    case (Inr r)
    obtain df' n d where r: "r = (df', n, d)" by (cases r)
    show ?thesis
    proof (cases "n < 19")
      case True
      from process_line_short [OF Inr [unfolded r] True] assms st show ?thesis
        by (simp add: process_line_def split: if_splits)
    next
      case False
      then have "19 \<le> n" by simp
      from process_line_accepted [OF Inr [unfolded r] this, of pgn_df] assms st show ?thesis
        by (auto simp: process_line_def split: if_splits)
    qed
  qed
qed

lemma process_line_missing_field:
  assumes "sublist ''Data:'' line"
    and "re_search_timestamp line = None \<or> re_search_digits ''ID = '' line = None
         \<or> re_search_digits ''Ret = '' line = None \<or> re_search_digits ''Sz = '' line = None
         \<or> re_search_data line = None"
  shows "process_line pgn_df line st = Inl AttributeError"
proof -
  obtain df i where st: "st = (df, i)" by (cases st)
  from assms(2) have "\<not> (\<exists>df' n d. parse_log_entry df i line = Inr (df', n, d))"
    by (subst parse_log_entry_succeeds_iff) auto
  then obtain e where e: "parse_log_entry df i line = Inl e"
    by (cases "parse_log_entry df i line") auto
  then have "e = AttributeError" by (rule parse_log_entry_Inl)
  with e assms(1) st show ?thesis by (simp add: process_line_def)
qed

lemma process_line_fails_iff:
  "isl (process_line pgn_df line (df, i)) \<longleftrightarrow>
     sublist ''Data:'' line \<and>
     (re_search_timestamp line = None \<or> re_search_digits ''ID = '' line = None
       \<or> re_search_digits ''Ret = '' line = None \<or> re_search_digits ''Sz = '' line = None
       \<or> re_search_data line = None)"
proof
  assume f: "isl (process_line pgn_df line (df, i))"
  then have m: "sublist ''Data:'' line" by (auto simp: process_line_def split: if_splits)
  have "\<not> (\<exists>df' n d. parse_log_entry df i line = Inr (df', n, d))"
  proof
    assume "\<exists>df' n d. parse_log_entry df i line = Inr (df', n, d)"
    then obtain df' n d where p: "parse_log_entry df i line = Inr (df', n, d)" by blast
    show False
    proof (cases "n < 19")
      case True
      from process_line_short [OF p True, of pgn_df] f show False by simp
    next
      case False
      then have "19 \<le> n" by simp
      from process_line_accepted [OF p this, of pgn_df] f show False by auto
    qed
  qed
  with m show "sublist ''Data:'' line \<and>
     (re_search_timestamp line = None \<or> re_search_digits ''ID = '' line = None
       \<or> re_search_digits ''Ret = '' line = None \<or> re_search_digits ''Sz = '' line = None
       \<or> re_search_data line = None)"
    by (subst (asm) parse_log_entry_succeeds_iff) auto
next
  assume "sublist ''Data:'' line \<and>
     (re_search_timestamp line = None \<or> re_search_digits ''ID = '' line = None
       \<or> re_search_digits ''Ret = '' line = None \<or> re_search_digits ''Sz = '' line = None
       \<or> re_search_data line = None)"
  then show "isl (process_line pgn_df line (df, i))"
    using process_line_missing_field [of line pgn_df "(df, i)"] by auto
qed

section \<open>The loop\<close>

lemma run_lines_abort:
  assumes "line \<in> set lines" and "\<And>st. process_line pgn_df line st = Inl AttributeError"
  shows "run_lines pgn_df lines st = Inl AttributeError"
  using assms(1)
proof (induction lines arbitrary: st)
  case Nil
  then show ?case by simp
next
  case (Cons l ls)
  show ?case
  proof (cases "process_line pgn_df l st")
    case (Inl e)
    then have "e = AttributeError" by (rule process_line_Inl)
    with Inl show ?thesis by simp
  next
    case (Inr st')
    have "l \<noteq> line" using Inr assms(2) [of st] by auto
    with Cons.prems have "line \<in> set ls" by simp
    then have "run_lines pgn_df ls st' = Inl AttributeError" by (rule Cons.IH)
    with Inr show ?thesis by simp
  qed
qed

section \<open>The pending row\<close>

lemma process_line_pending:
  assumes "process_line pgn_df line (df, i) = Inr (df', i')"
    and inv: "\<forall>j c. i \<le> j \<and> c \<notin> {Original, LogTimestamp, LogID, Ret, Sz, Blk, LogDataBytes}
                \<longrightarrow> df_at df j c = None"
  shows "\<forall>j c. i' \<le> j \<and> c \<notin> {Original, LogTimestamp, LogID, Ret, Sz, Blk, LogDataBytes}
                \<longrightarrow> df_at df' j c = None"
proof (cases "sublist ''Data:'' line")
  case False
  with assms(1) have "df' = df" "i' = i" by (simp_all add: process_line_def)
  with inv show ?thesis by simp
next
  case True
  from assms(1) True obtain df1 n d where p: "parse_log_entry df i line = Inr (df1, n, d)"
    by (cases "parse_log_entry df i line") (auto simp: process_line_def)
  have k: "\<forall>j c. i \<le> j \<and> c \<notin> {Original, LogTimestamp, LogID, Ret, Sz, Blk, LogDataBytes}
                \<longrightarrow> df_at df1 j c = None"
    unfolding parse_log_entry_cells [OF p] using inv by auto
  show ?thesis
  proof (cases "n < 19")
    case True
    from process_line_short [OF p True, of pgn_df] assms(1) have "df' = df1" "i' = i" by simp_all
    with k show ?thesis by simp
  next
    case False
    then have "19 \<le> n" by simp
    from process_line_accepted [OF p this, of pgn_df] assms(1) have
      f: "parse_can_frame pgn_df df1 i d = Inr df'" and i': "i' = i + 1" by auto
    from parse_can_frame_Inr [OF f] obtain df2 pgn_dec where
      a: "annotate pgn_df df2 i pgn_dec = Inr df'"
      and c: "\<forall>j c. j \<noteq> i \<longrightarrow> df_at df2 j c = df_at df1 j c" by auto
    show ?thesis
    proof (intro allI impI)
      fix j c
      assume h: "i' \<le> j \<and> c \<notin> {Original, LogTimestamp, LogID, Ret, Sz, Blk, LogDataBytes}"
      then have j: "j \<noteq> i" "i \<le> j" using i' by simp_all
      have "df_at df' j c = df_at df2 j c" using annotate_cells [OF a, of j] j(1) by simp
      also have "\<dots> = df_at df1 j c" using c j(1) by simp
      also have "\<dots> = None" using k j(2) h by blast
      finally show "df_at df' j c = None" .
    qed
  qed
qed

lemma run_lines_pending:
  assumes "run_lines pgn_df lines (df, i) = Inr (df', i')"
    and "\<forall>j c. i \<le> j \<and> c \<notin> {Original, LogTimestamp, LogID, Ret, Sz, Blk, LogDataBytes}
                \<longrightarrow> df_at df j c = None"
  shows "\<forall>j c. i' \<le> j \<and> c \<notin> {Original, LogTimestamp, LogID, Ret, Sz, Blk, LogDataBytes}
                \<longrightarrow> df_at df' j c = None"
  using assms
proof (induction lines arbitrary: df i)
  case Nil
  then show ?case by simp
next
  case (Cons l ls)
  from Cons.prems(1) obtain df1 i1 where
    s: "process_line pgn_df l (df, i) = Inr (df1, i1)"
    and r: "run_lines pgn_df ls (df1, i1) = Inr (df', i')"
    by (cases "process_line pgn_df l (df, i)") auto
  from process_line_pending [OF s Cons.prems(2)] have
    "\<forall>j c. i1 \<le> j \<and> c \<notin> {Original, LogTimestamp, LogID, Ret, Sz, Blk, LogDataBytes}
                \<longrightarrow> df_at df1 j c = None" .
  with r show ?case by (rule Cons.IH)
qed

lemma unmatched_pgn_left_unset:
  assumes "run_lines pgn_df before ([], 0) = Inr (df, i)"
    and "parse_log_entry df i line = Inr (df', n, d)" and "19 \<le> n"
    and "py_int (pgn_hex d) 16 = Inr pgn" and "pgn \<notin> fst ` set pgn_df"
  shows "\<exists>df''. process_line pgn_df line (df, i) = Inr (df'', i + 1)
           \<and> df_at df'' i PgnLabel = None \<and> df_at df'' i PgnInDbc = None"
proof -
  have "\<forall>j c. (0::nat) \<le> j \<and> c \<notin> {Original, LogTimestamp, LogID, Ret, Sz, Blk, LogDataBytes}
                \<longrightarrow> df_at [] j c = None" by (simp add: df_at_def)
  from run_lines_pending [OF assms(1) this] have
    inv: "df_at df i PgnLabel = None" "df_at df i PgnInDbc = None" by simp_all
  have k: "df_at df' i PgnLabel = None" "df_at df' i PgnInDbc = None"
    unfolding parse_log_entry_cells [OF assms(2)] using inv by simp_all
  from process_line_accepted [OF assms(2,3), of pgn_df] obtain df'' where
    f: "parse_can_frame pgn_df df' i d = Inr df''"
    and p: "process_line pgn_df line (df, i) = Inr (df'', i + 1)" by blast
  from parse_can_frame_Inr [OF f] assms(4) obtain df2 where
    a: "annotate pgn_df df2 i pgn = Inr df''"
    and c: "df_at df2 i PgnLabel = df_at df' i PgnLabel" "df_at df2 i PgnInDbc = df_at df' i PgnInDbc"
    by auto
  from assms(5) have "filter (\<lambda>r. fst r = pgn) pgn_df = []" by (auto simp: filter_empty_conv)
  with a have "df'' = df2" by (simp add: annotate_eq)
  with c k p show ?thesis by simp
qed

section \<open>Evaluations used below\<close>

lemma parse_log_entry_snd:
  "map_sum id snd (parse_log_entry df i line) = Inr (n, d) \<Longrightarrow>
     \<exists>df'. parse_log_entry df i line = Inr (df', n, d)"
  by (cases "parse_log_entry df i line") auto

lemma example_entry:
  "map_sum id snd (parse_log_entry [] 0 example_line)
     = Inr (19, ''0011EEB00020FF000300FF1021000000FFD0FF'')"
  unfolding example_line_def by code_simp

lemma short_entry:
  "map_sum id snd (parse_log_entry [] 0
      ''000001.226604 (000.003827)  Rx() ID = 00 Ret = 0019 Sz = 02048 Blk = 1 Data:  00 11 EE'')
     = Inr (3, ''0011EE'')"
  by code_simp

section \<open>Lines as \<open>readlines\<close> gives them\<close>

text \<open>A line read from the file has its only newline, if any, at the end.\<close>

lemma sublist_snoc_other:
  assumes "xs \<noteq> []" "c \<notin> set xs"
  shows "sublist xs (ys @ [c]) \<longleftrightarrow> sublist xs ys"
proof
  assume "sublist xs (ys @ [c])"
  then obtain ps ss where e: "ys @ [c] = ps @ xs @ ss" by (auto simp: sublist_def)
  show "sublist xs ys"
  proof (cases ss rule: rev_cases)
    case Nil
    with e assms(1) have "last xs = c" by (metis append_Nil2 last_appendR last_snoc)
    with assms show ?thesis by (metis last_in_set)
  next
    case (snoc ss' z)
    with e have "ys = ps @ xs @ ss'" by (metis append_assoc butlast_snoc)
    then show ?thesis by (auto simp: sublist_def)
  qed
next
  assume "sublist xs ys"
  then show "sublist xs (ys @ [c])" by (auto simp: sublist_def) (metis append_assoc)
qed

lemma read_line_first_segment:
  assumes "CHR 0x0A \<notin> set (butlast line)"
  shows "sublist '' ('' (takeWhile (\<lambda>c. c \<noteq> CHR 0x0A) line) \<longleftrightarrow> sublist '' ('' line"
proof (cases line rule: rev_cases)
  case Nil
  then show ?thesis by simp
next
  case (snoc body c)
  with assms have b: "\<forall>x\<in>set body. x \<noteq> CHR 0x0A" by auto
  show ?thesis
  proof (cases "c = CHR 0x0A")
    case True
    with b snoc have "takeWhile (\<lambda>c. c \<noteq> CHR 0x0A) line = body" by (simp add: takeWhile_tail)
    moreover have "sublist '' ('' (body @ [CHR 0x0A]) \<longleftrightarrow> sublist '' ('' body"
      by (rule sublist_snoc_other) simp_all
    ultimately show ?thesis using snoc True by simp
  next
    case False
    with b snoc have "takeWhile (\<lambda>c. c \<noteq> CHR 0x0A) line = line" by (simp add: takeWhile_eq_all_conv)
    then show ?thesis by (simp only:)
  qed
qed

section \<open>Hex digits as nibbles\<close>

lemma hex_digit_chars:
  "map digit_char [0, 1, 2, 3, 4, 5, 6, 7, 8, 9, 10, 11, 12, 13, 14, 15] = ''0123456789ABCDEF''"
  by code_simp

lemma is_09AF_nibble: "is_09AF c \<Longrightarrow> \<exists>h. 0 \<le> h \<and> h \<le> 15 \<and> c = digit_char h"
proof -
  assume "is_09AF c"
  then have "c \<in> set (map digit_char [0, 1, 2, 3, 4, 5, 6, 7, 8, 9, 10, 11, 12, 13, 14, 15])"
    by (simp only: is_09AF_def hex_digit_chars)
  then obtain h where h: "h \<in> set [0, 1, 2, 3, 4, 5, 6, 7, 8, 9, 10, 11, 12, 13, 14, 15 :: int]"
    and c: "c = digit_char h" by auto
  from h have "0 \<le> h \<and> h \<le> 15" by auto
  with c show ?thesis by blast
qed

lemma slice_10_16_parts:
  assumes "slice d 10 16 = [c0, c1, c2, c3, c4, c5]"
  shows "slice d 10 12 = [c0, c1]" "slice d 12 14 = [c2, c3]" "slice d 14 16 = [c4, c5]"
proof -
  have t: "take 6 (drop 10 d) = [c0, c1, c2, c3, c4, c5]" using assms by (simp add: slice_def)
  have "take 2 (drop 10 d) = take 2 (take 6 (drop 10 d))" by simp
  then show "slice d 10 12 = [c0, c1]" by (simp add: slice_def t)
  have "take 2 (drop 12 d) = take 2 (drop 2 (take 6 (drop 10 d)))" by (simp add: drop_take)
  then show "slice d 12 14 = [c2, c3]" by (simp add: slice_def t)
  have "take 2 (drop 14 d) = take 2 (drop 4 (take 6 (drop 10 d)))" by (simp add: drop_take)
  then show "slice d 14 16 = [c4, c5]" by (simp add: slice_def t)
qed

lemma pgn_dec_nibbles:
  assumes "set [h0, l0, h1, l1, h2, l2] \<subseteq> {0..15}"
    and "slice d 10 16 = [digit_char h0, digit_char l0, digit_char h1, digit_char l1,
                           digit_char h2, digit_char l2]"
  shows "py_int (pgn_hex d) 16
           = Inr ((16 * h2 + l2) * 2 ^ 16 + ((16 * h1 + l1) * 2 ^ 8 + (16 * h0 + l0)))"
proof -
  have r: "0 \<le> h0" "h0 < 16" "0 \<le> l0" "l0 < 16" "0 \<le> h1" "h1 < 16" "0 \<le> l1" "l1 < 16"
    "0 \<le> h2" "h2 < 16" "0 \<le> l2" "l2 < 16" using assms(1) by simp_all
  note v = digit_val_digit_char [OF r(1,2)] digit_val_digit_char [OF r(3,4)]
    digit_val_digit_char [OF r(5,6)] digit_val_digit_char [OF r(7,8)]
    digit_val_digit_char [OF r(9,10)] digit_val_digit_char [OF r(11,12)]
  have p: "pgn_hex d = [digit_char h2, digit_char l2, digit_char h1, digit_char l1,
                         digit_char h0, digit_char l0]"
    unfolding pgn_hex_def slice_10_16_parts [OF assms(2)] by simp
  have "list_all (is_digit_of 16) (pgn_hex d)"
    unfolding p using r by (simp add: is_digit_of_def v)
  moreover have "digits_val 16 (pgn_hex d)
           = (16 * h2 + l2) * 2 ^ 16 + ((16 * h1 + l1) * 2 ^ 8 + (16 * h0 + l0))"
    unfolding p by (simp add: digits_val_def v)
  ultimately show ?thesis by (simp add: py_int_def p)
qed

lemma accepted_pgn_nibbles:
  assumes "list_all is_09AF d" "38 \<le> length d"
  shows "\<exists>h0 l0 h1 l1 h2 l2. set [h0, l0, h1, l1, h2, l2] \<subseteq> {0..15}
           \<and> slice d 10 16 = [digit_char h0, digit_char l0, digit_char h1, digit_char l1,
                                 digit_char h2, digit_char l2]"
proof -
  have "length (slice d 10 16) = 6" using assms(2) by (simp add: slice_length)
  then obtain c0 c1 c2 c3 c4 c5 where s: "slice d 10 16 = [c0, c1, c2, c3, c4, c5]"
    by (auto simp: length_Suc_conv numeral_eq_Suc)
  have "\<forall>c\<in>set (slice d 10 16). is_09AF c"
    using assms(1) unfolding slice_def list_all_iff by (meson in_set_dropD in_set_takeD)
  then have "is_09AF c0" "is_09AF c1" "is_09AF c2" "is_09AF c3" "is_09AF c4" "is_09AF c5"
    unfolding s by simp_all
  then have "\<exists>h. 0 \<le> h \<and> h \<le> 15 \<and> c0 = digit_char h" "\<exists>h. 0 \<le> h \<and> h \<le> 15 \<and> c1 = digit_char h"
    "\<exists>h. 0 \<le> h \<and> h \<le> 15 \<and> c2 = digit_char h" "\<exists>h. 0 \<le> h \<and> h \<le> 15 \<and> c3 = digit_char h"
    "\<exists>h. 0 \<le> h \<and> h \<le> 15 \<and> c4 = digit_char h" "\<exists>h. 0 \<le> h \<and> h \<le> 15 \<and> c5 = digit_char h"
    by (simp_all only: is_09AF_nibble)
  then obtain h0 l0 h1 l1 h2 l2 where
    "0 \<le> h0 \<and> h0 \<le> 15 \<and> c0 = digit_char h0" "0 \<le> l0 \<and> l0 \<le> 15 \<and> c1 = digit_char l0"
    "0 \<le> h1 \<and> h1 \<le> 15 \<and> c2 = digit_char h1" "0 \<le> l1 \<and> l1 \<le> 15 \<and> c3 = digit_char l1"
    "0 \<le> h2 \<and> h2 \<le> 15 \<and> c4 = digit_char h2" "0 \<le> l2 \<and> l2 \<le> 15 \<and> c5 = digit_char l2"
    by blast
  then have "set [h0, l0, h1, l1, h2, l2] \<subseteq> {0..15}
           \<and> slice d 10 16 = [digit_char h0, digit_char l0, digit_char h1, digit_char l1,
                                 digit_char h2, digit_char l2]" using s by simp
  then show ?thesis by blast
qed

section \<open>The leftmost occurrence\<close>

lemma search_after_leftmost:
  assumes "\<forall>p s. pre @ lit @ rest = p @ lit @ s \<longrightarrow> length pre \<le> length p"
  shows "search_after lit (pre @ lit @ rest) = Some rest"
  using assms
proof (induction pre)
  case Nil
  show ?case
  proof (cases "lit @ rest")
    case Nil
    then show ?thesis by simp
  next
    case (Cons a list)
    have "prefix lit (lit @ rest)" by simp
    then have "prefix lit (a # list)" by (simp only: Cons)
    then have "search_after lit (a # list) = Some (drop (length lit) (a # list))" by simp
    moreover have "drop (length lit) (lit @ rest) = rest" by simp
    then have "drop (length lit) (a # list) = rest" by (simp only: Cons)
    ultimately have "search_after lit (a # list) = Some rest" by (simp only:)
    then have "search_after lit (lit @ rest) = Some rest" by (simp only: Cons)
    then show ?thesis by simp
  qed
next
  case (Cons x pre)
  have np: "\<not> prefix lit (x # pre @ lit @ rest)"
  proof
    assume "prefix lit (x # pre @ lit @ rest)"
    then obtain s where "x # pre @ lit @ rest = lit @ s" by (auto simp: prefix_def)
    then have "(x # pre) @ lit @ rest = [] @ lit @ s" by simp
    with Cons.prems have "length (x # pre) \<le> length ([] :: string)" by blast
    then show False by simp
  qed
  have "\<forall>p s. pre @ lit @ rest = p @ lit @ s \<longrightarrow> length pre \<le> length p"
  proof (intro allI impI)
    fix p s
    assume "pre @ lit @ rest = p @ lit @ s"
    then have "(x # pre) @ lit @ rest = (x # p) @ lit @ s" by simp
    with Cons.prems have "length (x # pre) \<le> length (x # p)" by blast
    then show "length pre \<le> length p" by simp
  qed
  then have "search_after lit (pre @ lit @ rest) = Some rest" by (rule Cons.IH)
  with np show ?case by simp
qed

lemma search_after_Some_leftmost:
  "search_after lit line = Some rest \<Longrightarrow>
     \<exists>pre. line = pre @ lit @ rest \<and> (\<forall>p s. line = p @ lit @ s \<longrightarrow> length pre \<le> length p)"
proof (induction line)
  case Nil
  then show ?case by (simp split: if_splits)
next
  case (Cons c cs)
  show ?case
  proof (cases "prefix lit (c # cs)")
    case True
    then obtain zs where "c # cs = lit @ zs" by (auto simp: prefix_def)
    moreover from True Cons.prems have "rest = drop (length lit) (c # cs)" by simp
    ultimately have "c # cs = [] @ lit @ rest" by simp
    moreover have "\<forall>p s. c # cs = p @ lit @ s \<longrightarrow> length ([] :: string) \<le> length p" by simp
    ultimately show ?thesis by blast
  next
    case False
    with Cons.prems have "search_after lit cs = Some rest" by simp
    then obtain pre where pre: "cs = pre @ lit @ rest"
      and lm: "\<forall>p s. cs = p @ lit @ s \<longrightarrow> length pre \<le> length p" using Cons.IH by blast
    have "\<forall>p s. c # cs = p @ lit @ s \<longrightarrow> length (c # pre) \<le> length p"
    proof (intro allI impI)
      fix p s
      assume e: "c # cs = p @ lit @ s"
      show "length (c # pre) \<le> length p"
      proof (cases p)
        case Nil
        with e have "prefix lit (c # cs)" by (simp add: prefix_def)
        with False show ?thesis by simp
      next
        case (Cons y p')
        with e have "cs = p' @ lit @ s" by simp
        with lm have "length pre \<le> length p'" by blast
        with Cons show ?thesis by simp
      qed
    qed
    moreover have "c # cs = (c # pre) @ lit @ rest" using pre by simp
    ultimately show ?thesis by blast
  qed
qed

lemma re_search_digits_leftmost:
  assumes "line = pre @ lit @ rest"
    and "\<forall>p s. line = p @ lit @ s \<longrightarrow> length pre \<le> length p"
  shows "re_search_digits lit line = Some (takeWhile is_09 rest)"
  using search_after_leftmost [of pre lit rest] assms by (simp add: re_search_digits_def)

section \<open>When the fields keep their widths\<close>

text \<open>
  The three binary strings are padded to 3, 18 and 8 digits and never cut: the identifier
  is (priority * 2^w2 + pgn) * 2^w3 + source, with w2 and w3 the lengths of the PGN and
  source strings. It is the masked formula exactly when the three values are within
  0..7, 0..2^18-1 and 0..255.
\<close>

lemma id_builder_unmasked:
  assumes "py_int p_hex 16 = Inr priority"
    and "py_int g_hex 16 = Inr pgn"
    and "py_int s_hex 16 = Inr source"
  shows "\<exists>id_hex n. build_id p_hex g_hex s_hex = Inr id_hex \<and> py_int id_hex 16 = Inr n
           \<and> n = (priority * 2 ^ max 18 (length (drop 2 (bin pgn))) + pgn)
                    * 2 ^ max 8 (length (drop 2 (bin source))) + source
           \<and> (n = (push_bit 26 (priority AND 7) OR push_bit 8 (pgn AND 0x3FFFF) OR (source AND 0xFF))
                \<longleftrightarrow> priority \<le> 7 \<and> pgn < 2 ^ 18 \<and> source \<le> 255)"
proof -
  have nn: "0 \<le> priority" "0 \<le> pgn" "0 \<le> source"
    using assms by (auto dest: py_int_nonneg [rotated])
  define w2 where "w2 = max 18 (length (drop 2 (bin pgn)))"
  define w3 where "w3 = max 8 (length (drop 2 (bin source)))"
  define n where "n = (priority * 2 ^ w2 + pgn) * 2 ^ w3 + source"
  have b: "build_id p_hex g_hex s_hex = Inr (format_04X n)"
    using build_id_value [OF assms] by (simp only: w2_def w3_def n_def)
  have n0: "0 \<le> n" using nn by (simp add: n_def)
  have w: "18 \<le> w2" "8 \<le> w3" by (simp_all add: w2_def w3_def)
  have r2: "pgn < 2 ^ 18 \<Longrightarrow> w2 = 18" using nn by (simp only: w2_def bits_in_range zero_less_numeral)
  have r3: "source < 2 ^ 8 \<Longrightarrow> w3 = 8" using nn by (simp only: w3_def bits_in_range zero_less_numeral)
  have "n = (push_bit 26 (priority AND 7) OR push_bit 8 (pgn AND 0x3FFFF) OR (source AND 0xFF))
                \<longleftrightarrow> priority \<le> 7 \<and> pgn < 2 ^ 18 \<and> source \<le> 255"
    unfolding n_def masked_formula using nn w r2 r3 by (rule unmasked_eq_masked_iff)
  then show ?thesis using b py_int_format_04X [OF n0]
    unfolding n_def w2_def w3_def by blast
qed

text \<open>
  The decoded PGN is within 18 bits exactly when the byte stored at offset 7 is at most 3.
\<close>

lemma pgn_within_18_bits_iff:
  assumes "set [h0, l0, h1, l1, h2, l2] \<subseteq> {0..15}"
    and "slice d 10 16 = [digit_char h0, digit_char l0, digit_char h1, digit_char l1,
                           digit_char h2, digit_char l2]"
  shows "\<exists>pgn. py_int (pgn_hex d) 16 = Inr pgn \<and> 0 \<le> pgn \<and> pgn < 2 ^ 24
           \<and> (pgn \<le> 2 ^ 18 - 1 \<longleftrightarrow> 16 * h2 + l2 \<le> 3)"
proof -
  have r: "0 \<le> h0" "h0 \<le> 15" "0 \<le> l0" "l0 \<le> 15" "0 \<le> h1" "h1 \<le> 15" "0 \<le> l1" "l1 \<le> 15"
    "0 \<le> h2" "h2 \<le> 15" "0 \<le> l2" "l2 \<le> 15" using assms(1) by simp_all
  define pgn where "pgn = (16 * h2 + l2) * 2 ^ 16 + ((16 * h1 + l1) * 2 ^ 8 + (16 * h0 + l0))"
  have "py_int (pgn_hex d) 16 = Inr pgn" unfolding pgn_def using assms by (rule pgn_dec_nibbles)
  moreover have "0 \<le> pgn" "pgn < 2 ^ 24" using r by (simp_all add: pgn_def)
  moreover have "pgn \<le> 2 ^ 18 - 1 \<longleftrightarrow> 16 * h2 + l2 \<le> 3" using r by (auto simp: pgn_def)
  ultimately show ?thesis by blast
qed

section \<open>The claims\<close>

text \<open>
  Claim C1. For hex fields that read as a priority in 0..7, a PGN in 0..2^18-1 and a
  source in 0..255, the identifier column written by lines 116 to 121 reads back (as
  line 176 reads it, in base 16) as a number below 2^29 whose bits 28..26 are the
  priority, bits 25..8 the PGN and bits 7..0 the source.
\<close>

theorem id_round_trip:
  assumes "py_int p_hex 16 = Inr priority"
    and "py_int g_hex 16 = Inr pgn"
    and "py_int s_hex 16 = Inr source"
    and "priority \<le> 7" and "pgn \<le> 2 ^ 18 - 1" and "source \<le> 255"
  shows "\<exists>id_hex n. build_id p_hex g_hex s_hex = Inr id_hex \<and> py_int id_hex 16 = Inr n
           \<and> drop_bit 26 n AND 7 = priority
           \<and> drop_bit 8 n AND 0x3FFFF = pgn
           \<and> n AND 0xFF = source
           \<and> n < 2 ^ 29"
proof -
  have nn: "0 \<le> priority" "0 \<le> pgn" "0 \<le> source"
    using assms by (auto dest: py_int_nonneg [rotated])
  have r: "pgn < 2 ^ 18" "source < 2 ^ 8" using assms by simp_all
  define n where "n = (priority * 2 ^ 18 + pgn) * 2 ^ 8 + source"
  have w: "max 18 (length (drop 2 (bin pgn))) = 18" "max 8 (length (drop 2 (bin source))) = 8"
    using nn r by (simp_all only: bits_in_range zero_less_numeral)
  have b: "build_id p_hex g_hex s_hex = Inr (format_04X n)"
    using build_id_value [OF assms(1-3)] by (simp only: w n_def)
  have n0: "0 \<le> n" using nn by (simp add: n_def)
  have f: "drop_bit 26 n = priority" "drop_bit 8 n mod 2 ^ 18 = pgn" "n mod 2 ^ 8 = source"
    unfolding n_def using id_fields [OF nn(1) nn(2) r(1) nn(3) r(2)] by simp_all
  have "n < 2 ^ 29" using nn r assms(4) by (simp add: n_def)
  moreover have "drop_bit 26 n AND 7 = priority"
    using f(1) nn(1) assms(4) by (simp add: and_mask_7)
  moreover have "drop_bit 8 n AND 0x3FFFF = pgn" using f(2) by (simp only: and_mask_3FFFF)
  moreover have "n AND 0xFF = source" using f(3) by (simp only: and_mask_FF)
  ultimately show ?thesis using b py_int_format_04X [OF n0] by blast
qed

theorem id_round_trip_witness:
  "py_int ''03'' 16 = Inr 3 \<and> py_int ''00FF20'' 16 = Inr 65312 \<and> py_int ''00'' 16 = Inr 0
     \<and> (\<exists>id_hex n. build_id ''03'' ''00FF20'' ''00'' = Inr id_hex \<and> py_int id_hex 16 = Inr n
           \<and> drop_bit 26 n AND 7 = 3
           \<and> drop_bit 8 n AND 0x3FFFF = 65312
           \<and> n AND 0xFF = 0
           \<and> n < 2 ^ 29)"
proof -
  have h1: "py_int ''03'' 16 = Inr 3" by code_simp
  have h2: "py_int ''00FF20'' 16 = Inr 65312" by code_simp
  have h3: "py_int ''00'' 16 = Inr 0" by code_simp
  have "(3::int) \<le> 7" "(65312::int) \<le> 2 ^ 18 - 1" "(0::int) \<le> 255" by simp_all
  from id_round_trip [OF h1 h2 h3 this] h1 h2 h3 show ?thesis by blast
qed

text \<open>
  Claim C2. In a payload that passes the length gate, the six hex digits at positions
  10 to 15 of the stripped string are the bytes at offsets 5, 6 and 7, two digits each,
  the high one first. With b0 = 16 * h0 + l0, b1 = 16 * h1 + l1 and b2 = 16 * h2 + l2 those
  bytes in stored order, the decoded PGN (\<open>pgn_dec\<close>, line 135) is
  b2<<16 | b1<<8 | b0, and nothing is masked. The bytes are named by their digits, not
  by reading them with \<open>int\<close>; every accepted payload has such digits.
\<close>

theorem pgn_endianness:
  assumes "parse_log_entry df i line = Inr (df', dataLength, d)" and "19 \<le> dataLength"
  shows "(\<exists>h0 l0 h1 l1 h2 l2. set [h0, l0, h1, l1, h2, l2] \<subseteq> {0..15}
            \<and> slice d 10 16 = [digit_char h0, digit_char l0, digit_char h1, digit_char l1,
                                  digit_char h2, digit_char l2])
       \<and> (\<forall>h0 l0 h1 l1 h2 l2. set [h0, l0, h1, l1, h2, l2] \<subseteq> {0..15}
            \<and> slice d 10 16 = [digit_char h0, digit_char l0, digit_char h1, digit_char l1,
                                  digit_char h2, digit_char l2]
            \<longrightarrow> py_int (pgn_hex d) 16
                  = Inr (push_bit 16 (16 * h2 + l2) OR push_bit 8 (16 * h1 + l1) OR (16 * h0 + l0)))"
proof (intro conjI allI impI)
  show "\<exists>h0 l0 h1 l1 h2 l2. set [h0, l0, h1, l1, h2, l2] \<subseteq> {0..15}
            \<and> slice d 10 16 = [digit_char h0, digit_char l0, digit_char h1, digit_char l1,
                                  digit_char h2, digit_char l2]"
    using accepted_payload [OF assms] by (rule accepted_pgn_nibbles)
next
  fix h0 l0 h1 l1 h2 l2 :: int
  assume h: "set [h0, l0, h1, l1, h2, l2] \<subseteq> {0..15}
            \<and> slice d 10 16 = [digit_char h0, digit_char l0, digit_char h1, digit_char l1,
                                  digit_char h2, digit_char l2]"
  then have r: "0 \<le> 16 * h0 + l0" "16 * h0 + l0 < 2 ^ 8" "0 \<le> 16 * h1 + l1" "16 * h1 + l1 < 2 ^ 8"
    by simp_all
  have "push_bit 16 (16 * h2 + l2) OR push_bit 8 (16 * h1 + l1) OR (16 * h0 + l0)
          = (16 * h2 + l2) * 2 ^ 16 + ((16 * h1 + l1) * 2 ^ 8 + (16 * h0 + l0))"
    using r by (rule shift_or_bytes)
  then show "py_int (pgn_hex d) 16
                  = Inr (push_bit 16 (16 * h2 + l2) OR push_bit 8 (16 * h1 + l1) OR (16 * h0 + l0))"
    using pgn_dec_nibbles [of h0 l0 h1 l1 h2 l2 d] h by (simp only:)
qed

theorem pgn_endianness_witness:
  "slice ''0011EEB00020FF000300FF1021000000FFD0FF'' 10 16
     = [digit_char 2, digit_char 0, digit_char 15, digit_char 15, digit_char 0, digit_char 0]
   \<and> py_int (pgn_hex ''0011EEB00020FF000300FF1021000000FFD0FF'') 16 = Inr 65312
   \<and> (65312 :: int) = push_bit 16 (16 * 0 + 0) OR push_bit 8 (16 * 15 + 15) OR (16 * 2 + 0)"
proof -
  from parse_log_entry_snd [OF example_entry] obtain df' where
    p: "parse_log_entry [] 0 example_line = Inr (df', 19, ''0011EEB00020FF000300FF1021000000FFD0FF'')"
    by blast
  have n: "(19::nat) \<le> 19" by simp
  have s: "slice ''0011EEB00020FF000300FF1021000000FFD0FF'' 10 16
     = [digit_char 2, digit_char 0, digit_char 15, digit_char 15, digit_char 0, digit_char 0]"
    by code_simp
  have k: "set [2, 0, 15, 15, 0, 0 :: int] \<subseteq> {0..15}" by simp
  have e: "(65312 :: int) = push_bit 16 (16 * 0 + 0) OR push_bit 8 (16 * 15 + 15) OR (16 * 2 + 0)"
    by simp
  from pgn_endianness [OF p n] k s
  have "py_int (pgn_hex ''0011EEB00020FF000300FF1021000000FFD0FF'') 16
          = Inr (push_bit 16 (16 * 0 + 0) OR push_bit 8 (16 * 15 + 15) OR (16 * 2 + 0))"
    by blast
  with s e show ?thesis by (simp only:)
qed

text \<open>
  Claim C3. The log line of the comment at line 59 carries the payload
  0011EEB00020FF000300FF1021000000FFD0FF; it decodes to priority 03 = 3, source 00 = 0,
  stored PGN bytes 20 FF 00 reassembled as 00FF20 = 65312, destination FF, and the
  identifier column CFF2000, which reads as 0x0CFF2000 = 218046464 = 3<<26 | 65312<<8 | 0.
\<close>

theorem concrete_scenario:
  "map_sum id snd (parse_log_entry [] 0 example_line)
       = Inr (19, ''0011EEB00020FF000300FF1021000000FFD0FF'')
   \<and> priority_hex ''0011EEB00020FF000300FF1021000000FFD0FF'' = ''03''
   \<and> py_int ''03'' 16 = Inr 3
   \<and> source_hex ''0011EEB00020FF000300FF1021000000FFD0FF'' = ''00''
   \<and> py_int ''00'' 16 = Inr 0
   \<and> slice ''0011EEB00020FF000300FF1021000000FFD0FF'' 10 16 = ''20FF00''
   \<and> pgn_hex ''0011EEB00020FF000300FF1021000000FFD0FF'' = ''00FF20''
   \<and> py_int ''00FF20'' 16 = Inr 65312
   \<and> (65312 :: int) = 0x00FF20
   \<and> destination_hex ''0011EEB00020FF000300FF1021000000FFD0FF'' = ''FF''
   \<and> py_int ''FF'' 16 = Inr 0xFF
   \<and> build_id ''03'' ''00FF20'' ''00'' = Inr ''CFF2000''
   \<and> py_int ''CFF2000'' 16 = Inr 0x0CFF2000
   \<and> (0x0CFF2000 :: int) = 218046464
   \<and> (218046464 :: int) = push_bit 26 3 OR push_bit 8 65312 OR 0
   \<and> \<not> isl (main [] [example_line])
   \<and> map (df_at (projr (main [] [example_line])) 0) [Priority, Source, PGN, Destination, ID]
       = [Some (Str ''03''), Some (Str ''00''), Some (Str ''00FF20''), Some (Str ''FF''),
          Some (Str ''CFF2000'')]"
proof -
  have "priority_hex ''0011EEB00020FF000300FF1021000000FFD0FF'' = ''03''" by code_simp
  moreover have "py_int ''03'' 16 = Inr 3" by code_simp
  moreover have "source_hex ''0011EEB00020FF000300FF1021000000FFD0FF'' = ''00''" by code_simp
  moreover have "py_int ''00'' 16 = Inr 0" by code_simp
  moreover have "slice ''0011EEB00020FF000300FF1021000000FFD0FF'' 10 16 = ''20FF00''" by code_simp
  moreover have "pgn_hex ''0011EEB00020FF000300FF1021000000FFD0FF'' = ''00FF20''" by code_simp
  moreover have "py_int ''00FF20'' 16 = Inr 65312" by code_simp
  moreover have "destination_hex ''0011EEB00020FF000300FF1021000000FFD0FF'' = ''FF''" by code_simp
  moreover have "py_int ''FF'' 16 = Inr 0xFF" by code_simp
  moreover have "build_id ''03'' ''00FF20'' ''00'' = Inr ''CFF2000''" by code_simp
  moreover have "py_int ''CFF2000'' 16 = Inr 0x0CFF2000" by code_simp
  moreover have "(218046464 :: int) = push_bit 26 3 OR push_bit 8 65312 OR 0" by simp
  moreover have "\<not> isl (main [] [example_line])" unfolding example_line_def by code_simp
  moreover have "map (df_at (projr (main [] [example_line])) 0) [Priority, Source, PGN, Destination, ID]
       = [Some (Str ''03''), Some (Str ''00''), Some (Str ''00FF20''), Some (Str ''FF''),
          Some (Str ''CFF2000'')]" unfolding example_line_def by code_simp
  moreover have "(65312 :: int) = 0x00FF20" by simp
  moreover have "(0x0CFF2000 :: int) = 218046464" by simp
  moreover note example_entry
  ultimately show ?thesis by blast
qed

text \<open>
  Claim C4 against the code. Lines 110 to 118 announce a 29 bit identifier made of a
  priority of 3 bits, a PGN of 18 bits and a source of 8 bits, and hand these widths to
  \<open>hexStr2binStr\<close>; but \<open>zfill\<close> pads to the width and never cuts. A log line
  whose priority byte is 08 gives the binary string 1000 for the priority and the
  identifier 20FF2000 = 553590784, which is not below 2^29; the masked formula of the
  claim gives 00FF2000 = 16719872. With PGN digits FFFF20 the PGN overruns the priority
  field: 3FFFF2000.
\<close>

theorem identifier_overruns_its_fields:
  "\<not> isl (main [] [''000001.226604 (000.003827)  Rx() ID = 00 Ret = 0019 Sz = 02048 Blk = 1 Data:  00 11 EE B0 00 20 FF 00 08 00 FF 10 21 00 00 00 FF D0 FF''])
   \<and> map (df_at (projr (main [] [''000001.226604 (000.003827)  Rx() ID = 00 Ret = 0019 Sz = 02048 Blk = 1 Data:  00 11 EE B0 00 20 FF 00 08 00 FF 10 21 00 00 00 FF D0 FF''])) 0)
        [Priority, PGN, Source, ID]
       = [Some (Str ''08''), Some (Str ''00FF20''), Some (Str ''00''), Some (Str ''20FF2000'')]
   \<and> py_int ''08'' 16 = Inr 8 \<and> py_int ''00FF20'' 16 = Inr 65312 \<and> py_int ''00'' 16 = Inr 0
   \<and> hexStr2binStr ''08'' 3 = Inr ''1000''
   \<and> build_id ''08'' ''00FF20'' ''00'' = Inr ''20FF2000''
   \<and> py_int ''20FF2000'' 16 = Inr 553590784
   \<and> push_bit 26 (8 AND 7) OR push_bit 8 (65312 AND 0x3FFFF) OR (0 AND 0xFF) = (16719872 :: int)
   \<and> \<not> (553590784 :: int) < 2 ^ 29
   \<and> build_id ''03'' ''FFFF20'' ''00'' = Inr ''3FFFF2000''"
proof -
  let ?l = "''000001.226604 (000.003827)  Rx() ID = 00 Ret = 0019 Sz = 02048 Blk = 1 Data:  00 11 EE B0 00 20 FF 00 08 00 FF 10 21 00 00 00 FF D0 FF''"
  have "\<not> isl (main [] [?l])" by code_simp
  moreover have "map (df_at (projr (main [] [?l])) 0) [Priority, PGN, Source, ID]
       = [Some (Str ''08''), Some (Str ''00FF20''), Some (Str ''00''), Some (Str ''20FF2000'')]"
    by code_simp
  moreover have "py_int ''08'' 16 = Inr 8" by code_simp
  moreover have "py_int ''00FF20'' 16 = Inr 65312" by code_simp
  moreover have "py_int ''00'' 16 = Inr 0" by code_simp
  moreover have "hexStr2binStr ''08'' 3 = Inr ''1000''" by code_simp
  moreover have "build_id ''08'' ''00FF20'' ''00'' = Inr ''20FF2000''" by code_simp
  moreover have "py_int ''20FF2000'' 16 = Inr 553590784" by code_simp
  moreover have "push_bit 26 (8 AND 7) OR push_bit 8 (65312 AND 0x3FFFF) OR (0 AND 0xFF) = (16719872 :: int)"
    by simp
  moreover have "\<not> (553590784 :: int) < 2 ^ 29" by simp
  moreover have "build_id ''03'' ''FFFF20'' ''00'' = Inr ''3FFFF2000''" by code_simp
  ultimately show ?thesis by blast
qed

text \<open>
  Claim C5 against the code. Lines 114 and 117 say that the PGN has 18 bits. A payload
  whose third PGN byte is FF gives the PGN column FFFF20 = 16776992, above 2^18 - 1: no
  line of the script takes the low 18 bits of the byte-reversed quantity.
\<close>

theorem pgn_wider_than_18_bits:
  "\<not> isl (main [] [''000001.226604 (000.003827)  Rx() ID = 00 Ret = 0019 Sz = 02048 Blk = 1 Data:  00 11 EE B0 00 20 FF FF 03 00 FF 10 21 00 00 00 FF D0 FF''])
   \<and> df_at (projr (main [] [''000001.226604 (000.003827)  Rx() ID = 00 Ret = 0019 Sz = 02048 Blk = 1 Data:  00 11 EE B0 00 20 FF FF 03 00 FF 10 21 00 00 00 FF D0 FF''])) 0 PGN
       = Some (Str ''FFFF20'')
   \<and> py_int ''FFFF20'' 16 = Inr 16776992
   \<and> \<not> (16776992 :: int) \<le> 2 ^ 18 - 1"
proof -
  have "\<not> isl (main [] [''000001.226604 (000.003827)  Rx() ID = 00 Ret = 0019 Sz = 02048 Blk = 1 Data:  00 11 EE B0 00 20 FF FF 03 00 FF 10 21 00 00 00 FF D0 FF''])"
    by code_simp
  moreover have "df_at (projr (main [] [''000001.226604 (000.003827)  Rx() ID = 00 Ret = 0019 Sz = 02048 Blk = 1 Data:  00 11 EE B0 00 20 FF FF 03 00 FF 10 21 00 00 00 FF D0 FF''])) 0 PGN
       = Some (Str ''FFFF20'')" by code_simp
  moreover have "py_int ''FFFF20'' 16 = Inr 16776992" by code_simp
  moreover have "\<not> (16776992 :: int) \<le> 2 ^ 18 - 1" by simp
  ultimately show ?thesis by blast
qed

text \<open>
  Claim C6, as the claim states it, fails: a line with the marker and no \<open>" ("\<close> raises
  \<open>AttributeError\<close> at line 66, nothing catches it, and the run ends there. The
  example line alone gives a record; after such a line it gives none.
\<close>

theorem missing_field_counterexample:
  "sublist ''Data:'' ''Data:  00 11''
   \<and> re_search_timestamp ''Data:  00 11'' = None
   \<and> \<not> isl (main [] [example_line])
   \<and> isl (main [] [''Data:  00 11'', example_line])
   \<and> projl (main [] [''Data:  00 11'', example_line]) = AttributeError"
proof -
  have "sublist ''Data:'' ''Data:  00 11''" by code_simp
  moreover have "re_search_timestamp ''Data:  00 11'' = None" by code_simp
  moreover have "\<not> isl (main [] [example_line])" unfolding example_line_def by code_simp
  moreover have "isl (main [] [''Data:  00 11'', example_line])"
    unfolding example_line_def by code_simp
  moreover have "projl (main [] [''Data:  00 11'', example_line]) = AttributeError"
    unfolding example_line_def by code_simp
  ultimately show ?thesis by blast
qed

text \<open>
  Claim C6, amended. For every input line that contains the marker and in which a
  required field pattern (the timestamp before \<open>" ("\<close>, or the digits after
  \<open>"ID = "\<close>, \<open>"Ret = "\<close>, \<open>"Sz = "\<close>) finds no match, the run raises
  \<open>AttributeError\<close> and aborts as a whole, wherever the line stands in the input: no
  later line is processed and no data frame is exported.
\<close>

theorem missing_field_aborts_run:
  assumes "line \<in> set lines" and "sublist ''Data:'' line"
    and "re_search_timestamp line = None \<or> re_search_digits ''ID = '' line = None
         \<or> re_search_digits ''Ret = '' line = None \<or> re_search_digits ''Sz = '' line = None"
  shows "main pgn_df lines = Inl AttributeError"
proof -
  have "\<And>st. process_line pgn_df line st = Inl AttributeError"
    using assms(2,3) by (intro process_line_missing_field) auto
  with assms(1) have "run_lines pgn_df lines ([], 0) = Inl AttributeError" by (rule run_lines_abort)
  then show ?thesis by (simp add: main_def)
qed

theorem missing_field_aborts_run_witness:
  "main [] [example_line, ''Rx() ID = 00 Ret = 0019 Sz = 02048 Data:  00 11'', example_line]
     = Inl AttributeError"
proof -
  let ?l = "''Rx() ID = 00 Ret = 0019 Sz = 02048 Data:  00 11''"
  have i: "?l \<in> set [example_line, ?l, example_line]" by simp
  have m: "sublist ''Data:'' ?l" by code_simp
  have "re_search_timestamp ?l = None" by code_simp
  then have d: "re_search_timestamp ?l = None \<or> re_search_digits ''ID = '' ?l = None
         \<or> re_search_digits ''Ret = '' ?l = None \<or> re_search_digits ''Sz = '' ?l = None"
    by blast
  from i m d show ?thesis by (rule missing_field_aborts_run)
qed

text \<open>
  Claim C7 against the code. The comment at line 144 says that an unfinished row is
  overwritten on the next iteration. When the line dropped by the short-payload gate is
  the last eligible line there is no next iteration: the data frame that reaches the
  export has a row with the seven log columns set and the seventeen frame columns
  missing.
\<close>

theorem partial_row_left_behind:
  "\<not> isl (main [] [''000001.226604 (000.003827)  Rx() ID = 00 Ret = 0019 Sz = 02048 Blk = 1 Data:  00 11 EE''])
   \<and> map fst (projr (main [] [''000001.226604 (000.003827)  Rx() ID = 00 Ret = 0019 Sz = 02048 Blk = 1 Data:  00 11 EE''])) = [0]
   \<and> map (df_at (projr (main [] [''000001.226604 (000.003827)  Rx() ID = 00 Ret = 0019 Sz = 02048 Blk = 1 Data:  00 11 EE''])) 0)
        [Original, LogTimestamp, LogID, Ret, Sz, Blk, LogDataBytes]
       = [Some (Str ''000001.226604 (000.003827)  Rx() ID = 00 Ret = 0019 Sz = 02048 Blk = 1 Data:  00 11 EE''),
          Some (Str ''000001.226604''), Some (Str ''00''), Some (Str ''0019''), Some (Str ''02048''),
          Some (Str ''1''), Some (Str ''0011EE'')]
   \<and> map (df_at (projr (main [] [''000001.226604 (000.003827)  Rx() ID = 00 Ret = 0019 Sz = 02048 Blk = 1 Data:  00 11 EE''])) 0)
        [timestamps, echoByte, PGN, Priority, Source, Destination, DataBytes, DataLength, ID,
         BusChannel, IDE, DLC, Dir, EDL, BRS, PgnLabel, PgnInDbc]
       = replicate 17 None"
proof -
  have "\<not> isl (main [] [''000001.226604 (000.003827)  Rx() ID = 00 Ret = 0019 Sz = 02048 Blk = 1 Data:  00 11 EE''])"
    by code_simp
  moreover have "map fst (projr (main [] [''000001.226604 (000.003827)  Rx() ID = 00 Ret = 0019 Sz = 02048 Blk = 1 Data:  00 11 EE''])) = [0]"
    by code_simp
  moreover have "map (df_at (projr (main [] [''000001.226604 (000.003827)  Rx() ID = 00 Ret = 0019 Sz = 02048 Blk = 1 Data:  00 11 EE''])) 0)
        [Original, LogTimestamp, LogID, Ret, Sz, Blk, LogDataBytes]
       = [Some (Str ''000001.226604 (000.003827)  Rx() ID = 00 Ret = 0019 Sz = 02048 Blk = 1 Data:  00 11 EE''),
          Some (Str ''000001.226604''), Some (Str ''00''), Some (Str ''0019''), Some (Str ''02048''),
          Some (Str ''1''), Some (Str ''0011EE'')]"
    by code_simp
  moreover have "map (df_at (projr (main [] [''000001.226604 (000.003827)  Rx() ID = 00 Ret = 0019 Sz = 02048 Blk = 1 Data:  00 11 EE''])) 0)
        [timestamps, echoByte, PGN, Priority, Source, Destination, DataBytes, DataLength, ID,
         BusChannel, IDE, DLC, Dir, EDL, BRS, PgnLabel, PgnInDbc]
       = replicate 17 None"
    by code_simp
  ultimately show ?thesis by blast
qed

text \<open>
  The overwriting is by column, and \<open>Blk\<close> is written only when the line has one: the
  block number of a dropped line stays in the record of the next accepted line that has
  none.
\<close>

lemma stale_blk_carried_over:
  "map (df_at (projr (main []
        [''000001.226604 (000.003827)  Rx() ID = 00 Ret = 0019 Sz = 02048 Blk = 7 Data:  00 11 EE'',
         ''000001.230431 (000.003827)  Rx() ID = 00 Ret = 0019 Sz = 02048 Data:  00 11 EE B0 00 20 FF 00 03 00 FF 10 21 00 00 00 FF D0 FF''])) 0)
      [LogTimestamp, Blk, LogDataBytes, PGN]
     = [Some (Str ''000001.230431''), Some (Str ''7''),
        Some (Str ''0011EEB00020FF000300FF1021000000FFD0FF''), Some (Str ''00FF20'')]"
  by code_simp

text \<open>
  Claim C8, as the claim states it, fails: a line with three groups after the marker and
  no \<open>"Sz = "\<close> is not dropped silently, it raises \<open>AttributeError\<close> at line 71,
  before the gate is reached.
\<close>

theorem short_payload_counterexample:
  "sublist ''Data:'' ''000001.226604 (000.003827)  Rx() ID = 00 Ret = 0019 Data:  00 11 EE''
   \<and> map_option (\<lambda>s. length (findall_groups s))
        (re_search_data ''000001.226604 (000.003827)  Rx() ID = 00 Ret = 0019 Data:  00 11 EE'')
       = Some 3
   \<and> isl (process_line [] ''000001.226604 (000.003827)  Rx() ID = 00 Ret = 0019 Data:  00 11 EE'' ([], 0))
   \<and> projl (process_line [] ''000001.226604 (000.003827)  Rx() ID = 00 Ret = 0019 Data:  00 11 EE'' ([], 0))
       = AttributeError"
proof -
  have "sublist ''Data:'' ''000001.226604 (000.003827)  Rx() ID = 00 Ret = 0019 Data:  00 11 EE''"
    by code_simp
  moreover have "map_option (\<lambda>s. length (findall_groups s))
        (re_search_data ''000001.226604 (000.003827)  Rx() ID = 00 Ret = 0019 Data:  00 11 EE'')
       = Some 3" by code_simp
  moreover have "isl (process_line [] ''000001.226604 (000.003827)  Rx() ID = 00 Ret = 0019 Data:  00 11 EE'' ([], 0))"
    by code_simp
  moreover have "projl (process_line [] ''000001.226604 (000.003827)  Rx() ID = 00 Ret = 0019 Data:  00 11 EE'' ([], 0))
       = AttributeError" by code_simp
  ultimately show ?thesis by blast
qed

text \<open>
  Claim C8, amended. For every input line whose required fields and data section are
  found and whose data section has fewer than 19 groups (as line 78 counts them: a blank
  followed by two hex digits, from left to right), the iteration raises nothing, ends at
  the gate with the row counter as it was, and writes no frame column of any row: only
  the seven log columns of the pending row \<open>i\<close> can differ.
\<close>

theorem short_payload_gate:
  assumes "parse_log_entry df i line = Inr (df', dataLength, d)" and "dataLength < 19"
  shows "process_line pgn_df line (df, i) = Inr (df', i)
       \<and> (\<forall>j c. j \<noteq> i \<or> c \<notin> {Original, LogTimestamp, LogID, Ret, Sz, Blk, LogDataBytes}
              \<longrightarrow> df_at df' j c = df_at df j c)"
proof -
  have "process_line pgn_df line (df, i) = Inr (df', i)" using assms by (rule process_line_short)
  moreover have "\<forall>j c. j \<noteq> i \<or> c \<notin> {Original, LogTimestamp, LogID, Ret, Sz, Blk, LogDataBytes}
              \<longrightarrow> df_at df' j c = df_at df j c"
    unfolding parse_log_entry_cells [OF assms(1)] by auto
  ultimately show ?thesis by blast
qed

theorem short_payload_gate_witness:
  "\<exists>df'. parse_log_entry [] 0
       ''000001.226604 (000.003827)  Rx() ID = 00 Ret = 0019 Sz = 02048 Blk = 1 Data:  00 11 EE''
       = Inr (df', 3, ''0011EE'')
     \<and> process_line [] ''000001.226604 (000.003827)  Rx() ID = 00 Ret = 0019 Sz = 02048 Blk = 1 Data:  00 11 EE'' ([], 0)
       = Inr (df', 0)
     \<and> df_at df' 0 PGN = df_at [] 0 PGN
     \<and> df_at df' 0 ID = df_at [] 0 ID
     \<and> df_at df' 1 Original = df_at [] 1 Original"
proof -
  from parse_log_entry_snd [OF short_entry] obtain df' where
    p: "parse_log_entry [] 0
       ''000001.226604 (000.003827)  Rx() ID = 00 Ret = 0019 Sz = 02048 Blk = 1 Data:  00 11 EE''
       = Inr (df', 3, ''0011EE'')"
    by blast
  have "(3::nat) < 19" by simp
  from short_payload_gate [OF p this, of "[]"] p show ?thesis by auto
qed

text \<open>
  Claim C9. The lookup of lines 137 to 140 never raises, for any table and any PGN: the
  \<open>.iloc[0]\<close> is guarded by the test for no rows. With no matching entry the data
  frame is returned as it was, so label and flag stay as they were; with several matching
  entries the two cells come from the first one in table order. No other cell changes.
\<close>

theorem pgn_lookup_total:
  "\<exists>df'. annotate pgn_df df i pgn_dec = Inr df'
     \<and> (pgn_dec \<notin> fst ` set pgn_df \<longrightarrow> df' = df)
     \<and> (\<forall>pre label flag post.
           pgn_df = pre @ (pgn_dec, label, flag) # post \<and> pgn_dec \<notin> fst ` set pre
           \<longrightarrow> df_at df' i PgnLabel = Some label \<and> df_at df' i PgnInDbc = Some flag)
     \<and> (\<forall>j c. j \<noteq> i \<or> (c \<noteq> PgnLabel \<and> c \<noteq> PgnInDbc) \<longrightarrow> df_at df' j c = df_at df j c)"
proof -
  define df' where "df' = (case filter (\<lambda>r. fst r = pgn_dec) pgn_df of
            [] \<Rightarrow> df
          | r # _ \<Rightarrow> df_at_set (df_at_set df i PgnLabel (fst (snd r))) i PgnInDbc (snd (snd r)))"
  have a: "annotate pgn_df df i pgn_dec = Inr df'" unfolding df'_def by (rule annotate_eq)
  have u: "pgn_dec \<notin> fst ` set pgn_df \<longrightarrow> df' = df"
  proof
    assume "pgn_dec \<notin> fst ` set pgn_df"
    then have "filter (\<lambda>r. fst r = pgn_dec) pgn_df = []" by (auto simp: filter_empty_conv)
    then show "df' = df" by (simp add: df'_def)
  qed
  have m: "\<forall>pre label flag post.
           pgn_df = pre @ (pgn_dec, label, flag) # post \<and> pgn_dec \<notin> fst ` set pre
           \<longrightarrow> df_at df' i PgnLabel = Some label \<and> df_at df' i PgnInDbc = Some flag"
  proof (intro allI impI)
    fix pre label flag post
    assume h: "pgn_df = pre @ (pgn_dec, label, flag) # post \<and> pgn_dec \<notin> fst ` set pre"
    then have "filter (\<lambda>r. fst r = pgn_dec) pre = []" by (auto simp: filter_empty_conv)
    with h have "filter (\<lambda>r. fst r = pgn_dec) pgn_df
                   = (pgn_dec, label, flag) # filter (\<lambda>r. fst r = pgn_dec) post" by simp
    then show "df_at df' i PgnLabel = Some label \<and> df_at df' i PgnInDbc = Some flag"
      by (simp add: df'_def df_at_df_at_set)
  qed
  have "\<forall>j c. j \<noteq> i \<or> (c \<noteq> PgnLabel \<and> c \<noteq> PgnInDbc) \<longrightarrow> df_at df' j c = df_at df j c"
    using annotate_cells [OF a] by blast
  with a u m show ?thesis by blast
qed

theorem pgn_lookup_total_witness:
  "\<exists>df'. annotate [(65312, Str ''first'', Str ''Yes''), (65312, Str ''second'', Str ''No'')] [] 0 65312
            = Inr df'
     \<and> df_at df' 0 PgnLabel = Some (Str ''first'') \<and> df_at df' 0 PgnInDbc = Some (Str ''Yes'')"
proof -
  have "[(65312, Str ''first'', Str ''Yes''), (65312, Str ''second'', Str ''No'')]
          = [] @ (65312 :: int, Str ''first'', Str ''Yes'') # [(65312, Str ''second'', Str ''No'')]
        \<and> (65312 :: int) \<notin> fst ` set ([] :: (int \<times> cell \<times> cell) list)" by simp
  with pgn_lookup_total [of "[(65312, Str ''first'', Str ''Yes''), (65312, Str ''second'', Str ''No'')]" "[]" 0 65312]
  show ?thesis by blast
qed

text \<open>
  In the loop the two cells of the pending row are missing when the lookup is reached
  (\<open>unmatched_pgn_left_unset\<close> above), so an unmatched PGN leaves them unset.
\<close>

text \<open>
  Claim C10, as the claim states it, fails: the data search of line 77 needs the marker
  followed by a blank. A line with the marker, \<open>" ("\<close> and the three prefixes, each
  followed by no digit, but written \<open>Data:00\<close>, finds the three fields empty and then
  raises \<open>AttributeError\<close> at line 77.
\<close>

theorem data_blank_counterexample:
  "sublist ''Data:'' ''000001.226604 (000.003827)  Rx() ID = Ret = Sz = Data:00 11 EE''
   \<and> sublist '' ('' ''000001.226604 (000.003827)  Rx() ID = Ret = Sz = Data:00 11 EE''
   \<and> re_search_timestamp ''000001.226604 (000.003827)  Rx() ID = Ret = Sz = Data:00 11 EE''
       = Some ''000001.226604''
   \<and> re_search_digits ''ID = '' ''000001.226604 (000.003827)  Rx() ID = Ret = Sz = Data:00 11 EE''
       = Some ''''
   \<and> re_search_digits ''Ret = '' ''000001.226604 (000.003827)  Rx() ID = Ret = Sz = Data:00 11 EE''
       = Some ''''
   \<and> re_search_digits ''Sz = '' ''000001.226604 (000.003827)  Rx() ID = Ret = Sz = Data:00 11 EE''
       = Some ''''
   \<and> re_search_data ''000001.226604 (000.003827)  Rx() ID = Ret = Sz = Data:00 11 EE'' = None
   \<and> isl (process_line [] ''000001.226604 (000.003827)  Rx() ID = Ret = Sz = Data:00 11 EE'' ([], 0))
   \<and> projl (process_line [] ''000001.226604 (000.003827)  Rx() ID = Ret = Sz = Data:00 11 EE'' ([], 0))
       = AttributeError"
proof -
  let ?l = "''000001.226604 (000.003827)  Rx() ID = Ret = Sz = Data:00 11 EE''"
  have "sublist ''Data:'' ?l" by code_simp
  moreover have "sublist '' ('' ?l" by code_simp
  moreover have "re_search_timestamp ?l = Some ''000001.226604''" by code_simp
  moreover have "re_search_digits ''ID = '' ?l = Some ''''" by code_simp
  moreover have "re_search_digits ''Ret = '' ?l = Some ''''" by code_simp
  moreover have "re_search_digits ''Sz = '' ?l = Some ''''" by code_simp
  moreover have "re_search_data ?l = None" by code_simp
  moreover have "isl (process_line [] ?l ([], 0))" by code_simp
  moreover have "projl (process_line [] ?l ([], 0)) = AttributeError" by code_simp
  ultimately show ?thesis by blast
qed

text \<open>
  Claim C10, amended. An iteration raises exactly when the line has the marker and one
  of the literals \<open>" ("\<close> (before the newline), \<open>"ID = "\<close>, \<open>"Ret = "\<close>,
  \<open>"Sz = "\<close> or \<open>"Data: "\<close> (the marker followed by a blank) is absent from it.
  The digit runs may be empty: the field found is the run of digits after the leftmost
  occurrence of its literal, which is the empty string exactly when no digit follows
  there, and the column holds the field found. For a line whose only newline is its last
  character, \<open>" ("\<close> before the newline is \<open>" ("\<close> anywhere in the line
  (\<open>read_line_first_segment\<close> above).
\<close>

theorem required_field_patterns:
  "(isl (process_line pgn_df line (df, i)) \<longleftrightarrow>
      sublist ''Data:'' line \<and>
      \<not> (sublist '' ('' (takeWhile (\<lambda>c. c \<noteq> CHR 0x0A) line) \<and> sublist ''ID = '' line
         \<and> sublist ''Ret = '' line \<and> sublist ''Sz = '' line \<and> sublist ''Data: '' line))
   \<and> (line = pre @ lit @ rest \<and> (\<forall>p s. line = p @ lit @ s \<longrightarrow> length pre \<le> length p)
       \<longrightarrow> re_search_digits lit line = Some (takeWhile is_09 rest)
           \<and> (rest = [] \<or> (rest \<noteq> [] \<and> \<not> is_09 (hd rest)) \<longleftrightarrow> re_search_digits lit line = Some ''''))
   \<and> (parse_log_entry df i line = Inr (df', n, d)
       \<longrightarrow> df_at df' i LogID = map_option Str (re_search_digits ''ID = '' line)
           \<and> df_at df' i Ret = map_option Str (re_search_digits ''Ret = '' line)
           \<and> df_at df' i Sz = map_option Str (re_search_digits ''Sz = '' line))"
proof -
  have A: "isl (process_line pgn_df line (df, i)) \<longleftrightarrow>
      sublist ''Data:'' line \<and>
      \<not> (sublist '' ('' (takeWhile (\<lambda>c. c \<noteq> CHR 0x0A) line) \<and> sublist ''ID = '' line
         \<and> sublist ''Ret = '' line \<and> sublist ''Sz = '' line \<and> sublist ''Data: '' line)"
    unfolding process_line_fails_iff re_search_timestamp_None re_search_digits_None
      re_search_data_None by blast
  have B: "re_search_digits lit line = Some (takeWhile is_09 rest)
           \<and> (rest = [] \<or> (rest \<noteq> [] \<and> \<not> is_09 (hd rest)) \<longleftrightarrow> re_search_digits lit line = Some '''')"
    if h: "line = pre @ lit @ rest \<and> (\<forall>p s. line = p @ lit @ s \<longrightarrow> length pre \<le> length p)"
  proof -
    have g: "re_search_digits lit line = Some (takeWhile is_09 rest)"
      using h by (intro re_search_digits_leftmost) blast+
    have "takeWhile is_09 rest = [] \<longleftrightarrow> rest = [] \<or> (rest \<noteq> [] \<and> \<not> is_09 (hd rest))"
      by (cases rest) auto
    with g show ?thesis by auto
  qed
  have C: "df_at df' i LogID = map_option Str (re_search_digits ''ID = '' line)
           \<and> df_at df' i Ret = map_option Str (re_search_digits ''Ret = '' line)
           \<and> df_at df' i Sz = map_option Str (re_search_digits ''Sz = '' line)"
    if "parse_log_entry df i line = Inr (df', n, d)"
    using parse_log_entry_cells [OF that] by simp
  from A B C show ?thesis by blast
qed

theorem required_field_patterns_witness:
  "\<not> isl (process_line [] ''000001.226604 (000.003827)  Rx() ID = Ret = 0019 Sz = Data:  00 11 EE'' ([], 0))
   \<and> re_search_digits ''ID = '' ''000001.226604 (000.003827)  Rx() ID = Ret = 0019 Sz = Data:  00 11 EE''
       = Some ''''
   \<and> re_search_digits ''Ret = '' ''000001.226604 (000.003827)  Rx() ID = Ret = 0019 Sz = Data:  00 11 EE''
       = Some ''0019''
   \<and> (\<exists>df' n d. parse_log_entry [] 0 ''000001.226604 (000.003827)  Rx() ID = Ret = 0019 Sz = Data:  00 11 EE''
                    = Inr (df', n, d)
         \<and> df_at df' 0 LogID = Some (Str '''') \<and> df_at df' 0 Ret = Some (Str ''0019'')
         \<and> df_at df' 0 Sz = Some (Str ''''))"
proof -
  let ?l = "''000001.226604 (000.003827)  Rx() ID = Ret = 0019 Sz = Data:  00 11 EE''"
  have "\<not> isl (parse_log_entry [] 0 ?l)" by code_simp
  then obtain df' n d where p: "parse_log_entry [] 0 ?l = Inr (df', n, d)"
    by (cases "parse_log_entry [] 0 ?l") auto
  have s: "sublist ''Data:'' ?l \<and> sublist '' ('' (takeWhile (\<lambda>c. c \<noteq> CHR 0x0A) ?l)
         \<and> sublist ''ID = '' ?l \<and> sublist ''Ret = '' ?l \<and> sublist ''Sz = '' ?l
         \<and> sublist ''Data: '' ?l" by code_simp
  have "search_after ''ID = '' ?l = Some ''Ret = 0019 Sz = Data:  00 11 EE''" by code_simp
  from search_after_Some_leftmost [OF this] obtain pre1 where
    l1: "?l = pre1 @ ''ID = '' @ ''Ret = 0019 Sz = Data:  00 11 EE''
         \<and> (\<forall>p s. ?l = p @ ''ID = '' @ s \<longrightarrow> length pre1 \<le> length p)" by blast
  have "search_after ''Ret = '' ?l = Some ''0019 Sz = Data:  00 11 EE''" by code_simp
  from search_after_Some_leftmost [OF this] obtain pre2 where
    l2: "?l = pre2 @ ''Ret = '' @ ''0019 Sz = Data:  00 11 EE''
         \<and> (\<forall>p s. ?l = p @ ''Ret = '' @ s \<longrightarrow> length pre2 \<le> length p)" by blast
  have "search_after ''Sz = '' ?l = Some ''Data:  00 11 EE''" by code_simp
  from search_after_Some_leftmost [OF this] obtain pre3 where
    l3: "?l = pre3 @ ''Sz = '' @ ''Data:  00 11 EE''
         \<and> (\<forall>p s. ?l = p @ ''Sz = '' @ s \<longrightarrow> length pre3 \<le> length p)" by blast
  have t: "takeWhile is_09 ''Ret = 0019 Sz = Data:  00 11 EE'' = ''''"
    "takeWhile is_09 ''0019 Sz = Data:  00 11 EE'' = ''0019''"
    "takeWhile is_09 ''Data:  00 11 EE'' = ''''" by code_simp+
  note T = required_field_patterns [where pgn_df = "[]" and line = ?l and df = "[]" and i = 0
            and df' = df' and n = n and d = d]
  from T [where pre = pre1 and lit = "''ID = ''" and rest = "''Ret = 0019 Sz = Data:  00 11 EE''"] l1
  have r1: "re_search_digits ''ID = '' ?l = Some ''''" unfolding t by blast
  from T [where pre = pre2 and lit = "''Ret = ''" and rest = "''0019 Sz = Data:  00 11 EE''"] l2
  have r2: "re_search_digits ''Ret = '' ?l = Some ''0019''" unfolding t by blast
  from T [where pre = pre3 and lit = "''Sz = ''" and rest = "''Data:  00 11 EE''"] l3
  have r3: "re_search_digits ''Sz = '' ?l = Some ''''" unfolding t by blast
  from T [where pre = pre1 and lit = "''ID = ''" and rest = "''Ret = 0019 Sz = Data:  00 11 EE''"] s
  have ok: "\<not> isl (process_line [] ?l ([], 0))" by blast
  from T [where pre = pre1 and lit = "''ID = ''" and rest = "''Ret = 0019 Sz = Data:  00 11 EE''"] p
  have c: "df_at df' 0 LogID = map_option Str (re_search_digits ''ID = '' ?l)
           \<and> df_at df' 0 Ret = map_option Str (re_search_digits ''Ret = '' ?l)
           \<and> df_at df' 0 Sz = map_option Str (re_search_digits ''Sz = '' ?l)" by blast
  then have "df_at df' 0 LogID = Some (Str '''') \<and> df_at df' 0 Ret = Some (Str ''0019'')
         \<and> df_at df' 0 Sz = Some (Str '''')" unfolding r1 r2 r3 by simp
  with ok r1 r2 p show ?thesis by blast
qed

end
